theory Spec2Isabelle
  imports Main "HOL-Library.Word"
begin

unbundle bit_operations_syntax

section \<open>Data model\<close>

text \<open>
  The repository holds the firmware in two variants. The interrupt routine, \<open>send\<close> and the
  four low-level queue functions are the same in both; the variant modelled here is the one
  with the macro recorder, whose magic mode also has the replay, record and bootloader
  keys. The other variant is this one without them.

  All program variables of the firmware are \<open>uint8_t\<close>; they are modelled as 8-bit words.
  The two flags per key and the two mode flags only ever hold 0 or 1 and are modelled as
  booleans.
\<close>

type_synonym u8 = "8 word"

text \<open>One entry of the \<open>layout[]\<close> table: \<open>struct {uint8_t type; uint8_t value;}\<close>.\<close>

record layout_entry =
  ltype :: u8
  lvalue :: u8

text \<open>One entry of the \<open>key[]\<close> table: \<open>struct {uint8_t pressed; uint8_t bounce;}\<close>.\<close>

record key_state =
  pressed :: bool
  bounce :: u8

text \<open>
  The keyboard model header (\<open>KEYBOARD_MODEL\<close>), \<open>hw_interface.h\<close> and the USB library
  are not part of the sources. What the code uses of them is a parameter of the model: the
  layout table, the matrix dimensions, the key codes compared against in magic mode, the
  magic key \<open>KC_RGUI\<close> and the macro \<open>IS_MODIFIER\<close>.
\<close>

record config =
  layout :: "u8 \<Rightarrow> layout_entry"
  NKEY :: u8
  NROW :: u8
  NCOL :: u8
  KEY_X :: u8
  KEY_R :: u8
  KEY_B :: u8
  KEY_Q :: u8
  MAGIC_KEY :: layout_entry
  IS_MODIFIER :: "layout_entry \<Rightarrow> bool"

text \<open>
  A call of the dispatcher. The field \<open>trace\<close> of the state lists the calls of
  \<open>key_press\<close> and \<open>key_release\<close> in the order they were made; the firmware has no such
  variable, it is kept to state properties about which edges were emitted.
\<close>

datatype edge = Press u8 | Release u8

text \<open>
  The global variables of the firmware, the three variables of the USB library that
  \<open>send\<close> and the interrupt routine touch (\<open>keyboard_keys\<close>, \<open>keyboard_modifier_keys\<close> and
  the reports handed to \<open>usb_keyboard_send\<close>, oldest first), and the LED pattern last
  given to \<open>update_leds\<close>.
\<close>

record state =
  key :: "u8 \<Rightarrow> key_state"
  replay_buf :: "u8 \<Rightarrow> u8"
  replay_buf_len :: u8
  queue :: "u8 list"
  mod_keys :: u8
  magic_mode :: bool
  recording_mode :: bool
  keyboard_keys :: "u8 list"
  keyboard_modifier_keys :: u8
  usb_out :: "(u8 list \<times> u8) list"
  leds :: u8
  trace :: "edge list"

text \<open>
  The state after the static initialisers and \<open>init\<close>: every variable is zero.
\<close>

definition init :: state where
  "init = \<lparr> key = (\<lambda>_. \<lparr> pressed = False, bounce = 0 \<rparr>),
            replay_buf = (\<lambda>_. 0),
            replay_buf_len = 0,
            queue = [0, 0, 0, 0, 0, 0, 0],
            mod_keys = 0,
            magic_mode = False,
            recording_mode = False,
            keyboard_keys = [0, 0, 0, 0, 0, 0],
            keyboard_modifier_keys = 0,
            usb_out = [],
            leds = 0,
            trace = [] \<rparr>"

section \<open>The report queue\<close>

text \<open>
  \<open>send\<close>: copies \<open>queue[0..5]\<close> and \<open>mod_keys\<close> into the USB library's report variables
  and transmits the report.
\<close>

definition send :: "state \<Rightarrow> state" where
  "send s =
     (let kk = fold (\<lambda>i ks. ks[i := queue s ! i]) [0..<6] (keyboard_keys s);
          s1 = s\<lparr> keyboard_keys := kk, keyboard_modifier_keys := mod_keys s \<rparr>
      in s1\<lparr> usb_out := usb_out s1 @ [(keyboard_keys s1, keyboard_modifier_keys s1)] \<rparr>)"

text \<open>
  The loop of \<open>ll_key_press\<close>: \<open>for(i = 5; i > 0; i--) queue[i] = queue[i-1];\<close>.
  The first argument is the loop variable.
\<close>

fun ll_key_press_loop :: "nat \<Rightarrow> u8 list \<Rightarrow> u8 list" where
  "ll_key_press_loop 0 q = q"
| "ll_key_press_loop (Suc j) q = ll_key_press_loop j (q[Suc j := q ! j])"

definition ll_key_press :: "u8 \<Rightarrow> state \<Rightarrow> state" where
  "ll_key_press k s = send (s\<lparr> queue := (ll_key_press_loop 5 (queue s))[0 := k] \<rparr>)"

definition ll_modifier_press :: "u8 \<Rightarrow> state \<Rightarrow> state" where
  "ll_modifier_press m s = send (s\<lparr> mod_keys := mod_keys s OR m \<rparr>)"

text \<open>
  The first loop of \<open>ll_key_release\<close>:
  \<open>for(i = 0; i < 6; i++) if(queue[i]==k) break;\<close>. The result is the value of \<open>i\<close> after
  the loop.
\<close>

function ll_key_release_find :: "nat \<Rightarrow> u8 \<Rightarrow> u8 list \<Rightarrow> nat" where
  "ll_key_release_find i k q =
     (if i < 6 then (if q ! i = k then i else ll_key_release_find (i + 1) k q) else i)"
  by pat_completeness auto
termination
  by (relation "measure (\<lambda>(i, k, q). 6 - i)") auto

text \<open>The second loop: \<open>for(; i < 6; i++) queue[i] = queue[i+1];\<close>.\<close>

function ll_key_release_shift :: "nat \<Rightarrow> u8 list \<Rightarrow> u8 list" where
  "ll_key_release_shift i q =
     (if i < 6 then ll_key_release_shift (i + 1) (q[i := q ! (i + 1)]) else q)"
  by pat_completeness auto
termination
  by (relation "measure (\<lambda>(i, q). 6 - i)") auto

definition ll_key_release :: "u8 \<Rightarrow> state \<Rightarrow> state" where
  "ll_key_release k s =
     send (s\<lparr> queue := ll_key_release_shift (ll_key_release_find 0 k (queue s)) (queue s) \<rparr>)"

definition ll_modifier_release :: "u8 \<Rightarrow> state \<Rightarrow> state" where
  "ll_modifier_release m s = send (s\<lparr> mod_keys := mod_keys s AND NOT m \<rparr>)"

definition is_magic_key :: "config \<Rightarrow> u8 \<Rightarrow> bool" where
  "is_magic_key c k \<longleftrightarrow>
     ltype (layout c k) = ltype (MAGIC_KEY c) \<and> lvalue (layout c k) = lvalue (MAGIC_KEY c)"

text \<open>
  \<open>clear_pressed\<close>: sets \<open>key[i].pressed = 0\<close> for \<open>i < NKEY\<close>, \<open>queue[i] = 0\<close> for
  \<open>i < 7\<close>, \<open>mod_keys = 0\<close>, and sends the report.
\<close>

definition clear_pressed :: "config \<Rightarrow> state \<Rightarrow> state" where
  "clear_pressed c s =
     (let kt = fold (\<lambda>i t. t(of_nat i := (t (of_nat i))\<lparr> pressed := False \<rparr>))
                 [0..<unat (NKEY c)] (key s);
          q = fold (\<lambda>i q. q[i := 0]) [0..<7] (queue s)
      in send (s\<lparr> key := kt, queue := q, mod_keys := 0 \<rparr>))"

text \<open>
  \<open>add_to_replay_buf\<close>. The test \<open>replay_buf_len + 1 < sizeof(replay_buf)\<close> is evaluated
  in \<open>int\<close> after integer promotion, so the sum does not wrap; \<open>sizeof(replay_buf)\<close> is 255.
\<close>

definition add_to_replay_buf :: "u8 \<Rightarrow> state \<Rightarrow> state" where
  "add_to_replay_buf k s =
     (if unat (replay_buf_len s) + 1 < 255
      then s\<lparr> replay_buf := (replay_buf s)(replay_buf_len s := k),
               replay_buf_len := replay_buf_len s + 1 \<rparr>
      else s\<lparr> recording_mode := False \<rparr>)"


section \<open>The dispatcher, magic mode and the macro recorder\<close>

text \<open>
  \<open>jump_bootloader\<close> does not return, and \<open>key_press\<close> and \<open>replay_keypresses\<close> call each
  other: a replayed press may itself be handled in magic mode and start a replay. A run of
  the dispatcher therefore ends in one of three ways: it returns with a new state, it hands
  control to the bootloader, or it nests replays deeper than the bound given as first
  argument of the functions below (the firmware would keep recursing).
\<close>

datatype result = Running state | Bootloader state | Exhausted

text \<open>Hook for key releases in magic mode.\<close>

definition magic_key_release :: "config \<Rightarrow> u8 \<Rightarrow> state \<Rightarrow> state" where
  "magic_key_release c k s =
     (if lvalue (layout c k) = KEY_Q c
      then clear_pressed c (s\<lparr> recording_mode := True, replay_buf_len := 0, magic_mode := False \<rparr>)
      else s)"

definition key_release :: "config \<Rightarrow> u8 \<Rightarrow> state \<Rightarrow> state" where
  "key_release c k s =
     (let s1 = s\<lparr> key := (key s)(k := (key s k)\<lparr> pressed := False \<rparr>),
                  trace := trace s @ [Release k] \<rparr>
      in if magic_mode s1 then magic_key_release c k s1
         else let s2 = (if recording_mode s1 then add_to_replay_buf k s1 else s1)
              in if IS_MODIFIER c (layout c k)
                 then ll_modifier_release (lvalue (layout c k)) s2
                 else ll_key_release (lvalue (layout c k)) s2)"

text \<open>
  \<open>key_press\<close>, \<open>magic_key_press\<close>, \<open>replay_keypresses\<close> and the loop of the latter,
  whose third argument is the loop variable \<open>i\<close>. The loop reads \<open>replay_buf_len\<close> and
  \<open>replay_buf[i]\<close> from the current state in every iteration, as the code does. The three
  tests of \<open>magic_key_press\<close> on \<open>layout[k].value\<close> are made one after the other.
\<close>

function key_press :: "nat \<Rightarrow> config \<Rightarrow> u8 \<Rightarrow> state \<Rightarrow> result"
  and magic_key_press :: "nat \<Rightarrow> config \<Rightarrow> u8 \<Rightarrow> state \<Rightarrow> result"
  and replay_keypresses :: "nat \<Rightarrow> config \<Rightarrow> state \<Rightarrow> result"
  and replay_loop :: "nat \<Rightarrow> config \<Rightarrow> u8 \<Rightarrow> state \<Rightarrow> result"
where
  "key_press n c k s =
     (let s1 = s\<lparr> key := (key s)(k := (key s k)\<lparr> pressed := True \<rparr>),
                  trace := trace s @ [Press k] \<rparr>
      in if magic_mode s1 then magic_key_press n c k s1
         else if is_magic_key c k
         then (if recording_mode s1
               then Running (s1\<lparr> recording_mode := False \<rparr>)
               else Running (s1\<lparr> magic_mode := True \<rparr>))
         else let s2 = (if recording_mode s1 then add_to_replay_buf k s1 else s1)
              in if IS_MODIFIER c (layout c k)
                 then Running (ll_modifier_press (lvalue (layout c k)) s2)
                 else Running (ll_key_press (lvalue (layout c k)) s2))"
| "magic_key_press n c k s =
     (let s1 = (if is_magic_key c k then s\<lparr> magic_mode := False \<rparr> else s);
          s2 = (if lvalue (layout c k) = KEY_X c
                then ll_key_release (KEY_X c) (ll_key_press (KEY_X c)
                       (ll_key_release (KEY_X c) (ll_key_press (KEY_X c) s1)))
                else s1)
      in case (if lvalue (layout c k) = KEY_R c
               then replay_keypresses n c (s2\<lparr> magic_mode := False \<rparr>)
               else Running s2) of
           Running s3 \<Rightarrow>
             if lvalue (layout c k) = KEY_B c then Bootloader s3 else Running s3
         | Bootloader s3 \<Rightarrow> Bootloader s3
         | Exhausted \<Rightarrow> Exhausted)"
| "replay_keypresses 0 c s = Exhausted"
| "replay_keypresses (Suc n) c s = replay_loop n c 0 (clear_pressed c s)"
| "replay_loop n c i s =
     (if i < replay_buf_len s
      then (let k = replay_buf s i
            in case (if \<not> pressed (key s k) then key_press n c k s
                     else Running (key_release c k s)) of
                 Running s' \<Rightarrow> replay_loop n c (i + 1) s'
               | Bootloader s' \<Rightarrow> Bootloader s'
               | Exhausted \<Rightarrow> Exhausted)
      else Running s)"
  by pat_completeness auto
termination
  apply (relation "measures
     [case_sum (case_sum (\<lambda>(n, c, k, s). n) (\<lambda>(n, c, k, s). n))
               (case_sum (\<lambda>(n, c, s). n) (\<lambda>(n, c, i, s). n)),
      case_sum (case_sum (\<lambda>_. 2) (\<lambda>_. 1)) (case_sum (\<lambda>_. 0) (\<lambda>_. 3)),
      case_sum (case_sum (\<lambda>_. 0) (\<lambda>_. 0))
               (case_sum (\<lambda>_. 0) (\<lambda>(n, c, i, s). 256 - unat i))]")
       apply simp_all
  apply (unat_arith, simp)+
  done


declare key_press.simps [simp del] magic_key_press.simps [simp del] replay_loop.simps [simp del]

section \<open>The scan interrupt\<close>

text \<open>
  The body of the inner loop of the interrupt routine for key \<open>k\<close>, where \<open>smp\<close> is the
  value returned by \<open>probe_column\<close>.
\<close>

definition scan_key :: "nat \<Rightarrow> config \<Rightarrow> u8 \<Rightarrow> u8 \<Rightarrow> state \<Rightarrow> result" where
  "scan_key n c k smp s =
     (let s1 = s\<lparr> key := (key s)(k := (key s k)\<lparr> bounce := bounce (key s k) OR smp \<rparr>) \<rparr>
      in case (if bounce (key s1 k) = 0x7F \<and> \<not> pressed (key s1 k)
               then key_press n c k s1 else Running s1) of
           Running s2 \<Rightarrow>
             (let s3 = (if bounce (key s2 k) = 0x80 \<and> pressed (key s2 k)
                        then key_release c k s2 else s2)
              in Running (s3\<lparr> key := (key s3)
                            (k := (key s3 k)\<lparr> bounce := push_bit 1 (bounce (key s3 k)) \<rparr>) \<rparr>))
         | Bootloader s2 \<Rightarrow> Bootloader s2
         | Exhausted \<Rightarrow> Exhausted)"

text \<open>
  The inner loop \<open>for(c = 0; c < NCOL; c++, k++)\<close> for row \<open>r\<close>; \<open>smp r col\<close> is what
  \<open>probe_column(col)\<close> returns while row \<open>r\<close> is pulled. The result carries the value of
  \<open>k\<close> after the loop.
\<close>

function scan_cols ::
  "nat \<Rightarrow> config \<Rightarrow> (u8 \<Rightarrow> u8 \<Rightarrow> u8) \<Rightarrow> u8 \<Rightarrow> u8 \<Rightarrow> u8 \<Rightarrow> state \<Rightarrow> u8 \<times> result" where
  "scan_cols n c smp r col k s =
     (if col < NCOL c
      then (case scan_key n c k (smp r col) s of
              Running s' \<Rightarrow> scan_cols n c smp r (col + 1) (k + 1) s'
            | Bootloader s' \<Rightarrow> (k, Bootloader s')
            | Exhausted \<Rightarrow> (k, Exhausted))
      else (k, Running s))"
  by pat_completeness auto
termination
  apply (relation "measure (\<lambda>(n, c, smp, r, col, k, s). 256 - unat col)")
   apply simp_all
  apply (unat_arith, simp)+
  done

declare scan_cols.simps [simp del]

text \<open>The outer loop \<open>for(r = 0, k = 0; r < NROW; r++)\<close>.\<close>

function scan_rows ::
  "nat \<Rightarrow> config \<Rightarrow> (u8 \<Rightarrow> u8 \<Rightarrow> u8) \<Rightarrow> u8 \<Rightarrow> u8 \<Rightarrow> state \<Rightarrow> result" where
  "scan_rows n c smp r k s =
     (if r < NROW c
      then (case scan_cols n c smp r 0 k s of
              (k', Running s') \<Rightarrow> scan_rows n c smp (r + 1) k' s'
            | (k', Bootloader s') \<Rightarrow> Bootloader s'
            | (k', Exhausted) \<Rightarrow> Exhausted)
      else Running s)"
  by pat_completeness auto
termination
  apply (relation "measure (\<lambda>(n, c, smp, r, k, s). 256 - unat r)")
   apply simp_all
  apply (unat_arith, simp)+
  done

declare scan_rows.simps [simp del]

text \<open>
  The interrupt routine: one scan of the matrix, then the LEDs. \<open>host_leds\<close> is the value
  of the USB library's \<open>keyboard_leds\<close> at that moment.
\<close>

definition isr :: "nat \<Rightarrow> config \<Rightarrow> (u8 \<Rightarrow> u8 \<Rightarrow> u8) \<Rightarrow> u8 \<Rightarrow> state \<Rightarrow> result" where
  "isr n c smp host_leds s =
     (case scan_rows n c smp 0 0 s of
        Running s' \<Rightarrow>
          Running (s'\<lparr> leds := (if magic_mode s' then 6
                                  else if recording_mode s' then 4 else host_leds) \<rparr>)
      | Bootloader s' \<Rightarrow> Bootloader s'
      | Exhausted \<Rightarrow> Exhausted)"

text \<open>
  The states the firmware can be in at the end of an interrupt: the initial state, and
  every state in which an interrupt returns when started in such a state.
\<close>

inductive reachable :: "config \<Rightarrow> state \<Rightarrow> bool" for c :: config where
  reachable_init: "reachable c init"
| reachable_isr: "reachable c s \<Longrightarrow> isr n c smp host_leds s = Running s' \<Longrightarrow> reachable c s'"

section \<open>Derived notions\<close>

text \<open>The arrays have the sizes they are declared with: \<open>queue[7]\<close>, \<open>keyboard_keys[6]\<close>.\<close>

definition wf_arrays :: "state \<Rightarrow> bool" where
  "wf_arrays s \<longleftrightarrow> length (queue s) = 7 \<and> length (keyboard_keys s) = 6"

text \<open>The two loops of \<open>ll_key_release\<close> in sequence, as a function of the queue.\<close>

definition remove_slot :: "u8 \<Rightarrow> u8 list \<Rightarrow> u8 list" where
  "remove_slot k q =
     ll_key_release_shift (ll_key_release_find 0 k q) q"

text \<open>A state in which two normal keys are held.\<close>

definition two_held :: state where
  "two_held = ll_key_press 5 (ll_key_press 4 init)"

text \<open>
  The recorded macro: the first \<open>replay_buf_len\<close> entries of \<open>replay_buf\<close>.
\<close>

definition macro :: "state \<Rightarrow> u8 list" where
  "macro s = map (\<lambda>i. replay_buf s (of_nat i)) [0..<unat (replay_buf_len s)]"

text \<open>The state after 254 keys have been recorded in one session.\<close>

definition nearly_full :: state where
  "nearly_full = (add_to_replay_buf 7 ^^ 254) (init\<lparr> recording_mode := True \<rparr>)"

text \<open>
  A property holds after a run of the dispatcher if it holds in the state in which the run
  returned or in which it handed control to the bootloader.
\<close>

fun holds_after :: "(state \<Rightarrow> bool) \<Rightarrow> result \<Rightarrow> bool" where
  "holds_after P (Running s) = P s"
| "holds_after P (Bootloader s) = P s"
| "holds_after P Exhausted = True"

text \<open>The two mode flags are not both set.\<close>

definition mode_inv :: "state \<Rightarrow> bool" where
  "mode_inv s \<longleftrightarrow> \<not> (magic_mode s \<and> recording_mode s)"

text \<open>
  A configuration used in the examples: ten keys in two rows of five, with the magic key
  (a modifier) at index 0, then the keys R, Q, X and six keys with the codes 4, 6, 7, 8, 9
  and 10. The key codes are those of the USB HID usage table.
\<close>

definition demo_cfg :: config where
  "demo_cfg =
     \<lparr> layout = (\<lambda>k. if k = 0 then \<lparr> ltype = 1, lvalue = 0x80 \<rparr>
                     else if k = 1 then \<lparr> ltype = 0, lvalue = 21 \<rparr>
                     else if k = 2 then \<lparr> ltype = 0, lvalue = 20 \<rparr>
                     else if k = 3 then \<lparr> ltype = 0, lvalue = 27 \<rparr>
                     else if k = 4 then \<lparr> ltype = 0, lvalue = 4 \<rparr>
                     else \<lparr> ltype = 0, lvalue = k + 1 \<rparr>),
       NKEY = 10, NROW = 2, NCOL = 5,
       KEY_X = 27, KEY_R = 21, KEY_B = 5, KEY_Q = 20,
       MAGIC_KEY = \<lparr> ltype = 1, lvalue = 0x80 \<rparr>,
       IS_MODIFIER = (\<lambda>e. ltype e = 1) \<rparr>"

text \<open>
  The state in which a run returned, if it returned.
\<close>

fun final :: "result \<Rightarrow> state option" where
  "final (Running s) = Some s"
| "final (Bootloader s) = None"
| "final Exhausted = None"

text \<open>
  The dispatcher called with a sequence of edges, as the scan does over time.
\<close>

fun dispatch :: "nat \<Rightarrow> config \<Rightarrow> edge list \<Rightarrow> state \<Rightarrow> result" where
  "dispatch n c [] s = Running s"
| "dispatch n c (Press k # es) s =
     (case key_press n c k s of
        Running s' \<Rightarrow> dispatch n c es s'
      | Bootloader s' \<Rightarrow> Bootloader s'
      | Exhausted \<Rightarrow> Exhausted)"
| "dispatch n c (Release k # es) s = dispatch n c es (key_release c k s)"

text \<open>Six normal keys are pressed and held, then the magic key is pressed.\<close>

definition six_held_magic :: result where
  "six_held_magic =
     dispatch 1 demo_cfg [Press 4, Press 5, Press 6, Press 7, Press 8, Press 9, Press 0] init"

text \<open>The same, followed by a press of the X key.\<close>

definition six_held_magic_x :: result where
  "six_held_magic_x =
     dispatch 1 demo_cfg
       [Press 4, Press 5, Press 6, Press 7, Press 8, Press 9, Press 0, Press 3] init"

text \<open>
  Key 4 is pressed, magic mode is entered, key 4 and the magic key are released, magic
  mode is left.
\<close>

definition released_in_magic :: result where
  "released_in_magic =
     dispatch 1 demo_cfg [Press 4, Press 0, Release 4, Release 0, Press 0] init"

text \<open>The same, and key 4 is pressed again.\<close>

definition pressed_again :: result where
  "pressed_again =
     dispatch 1 demo_cfg [Press 4, Press 0, Release 4, Release 0, Press 0, Press 4] init"

text \<open>The logical pressed flag of a key.\<close>

definition is_pressed :: "u8 \<Rightarrow> state \<Rightarrow> bool" where
  "is_pressed k s = pressed (key s k)"

text \<open>
  Key 4 is pressed and held, magic mode is entered and the Q key is pressed; then the Q key
  is released.
\<close>

definition held_then_q :: result where
  "held_then_q = dispatch 1 demo_cfg [Press 4, Press 0, Press 2] init"

definition held_then_record :: result where
  "held_then_record = dispatch 1 demo_cfg [Press 4, Press 0, Press 2, Release 2] init"

text \<open>The number of non-zero codes in the six report slots, and that they are distinct.\<close>

definition occupied :: "state \<Rightarrow> nat" where
  "occupied s = length (filter (\<lambda>x. x \<noteq> 0) (take 6 (queue s)))"

definition no_duplicates :: "state \<Rightarrow> bool" where
  "no_duplicates s \<longleftrightarrow> distinct (filter (\<lambda>x. x \<noteq> 0) (take 6 (queue s)))"

text \<open>
  Replay as the specification words it: the stored key indices are taken front to back, and
  each becomes a press edge if the key's flag is clear and a release edge otherwise.
\<close>

fun replay_edges :: "nat \<Rightarrow> config \<Rightarrow> u8 list \<Rightarrow> state \<Rightarrow> result" where
  "replay_edges n c [] s = Running s"
| "replay_edges n c (k # ks) s =
     (case (if \<not> pressed (key s k) then key_press n c k s
            else Running (key_release c k s)) of
        Running s' \<Rightarrow> replay_edges n c ks s'
      | Bootloader s' \<Rightarrow> Bootloader s'
      | Exhausted \<Rightarrow> Exhausted)"



text \<open>The last statement of the loop body: \<open>key[k].bounce <<= 1\<close>.\<close>

definition shift_bounce :: "u8 \<Rightarrow> state \<Rightarrow> state" where
  "shift_bounce k s =
     s\<lparr> key := (key s)(k := (key s k)\<lparr> bounce := push_bit 1 (bounce (key s k)) \<rparr>) \<rparr>"

text \<open>
  The interrupt firing once for every element of a list of matrix samples, while the host
  keeps its LEDs off.
\<close>

fun run :: "nat \<Rightarrow> config \<Rightarrow> (u8 \<Rightarrow> u8 \<Rightarrow> u8) list \<Rightarrow> state \<Rightarrow> result" where
  "run n c [] s = Running s"
| "run n c (smp # rest) s =
     (case isr n c smp 0 s of
        Running s' \<Rightarrow> run n c rest s'
      | Bootloader s' \<Rightarrow> Bootloader s'
      | Exhausted \<Rightarrow> Exhausted)"

text \<open>A keyboard with two keys in one row: the magic key and the R key.\<close>

definition tiny_cfg :: config where
  "tiny_cfg =
     \<lparr> layout = (\<lambda>k. if k = 0 then \<lparr> ltype = 1, lvalue = 0x80 \<rparr>
                     else \<lparr> ltype = 0, lvalue = 21 \<rparr>),
       NKEY = 2, NROW = 1, NCOL = 2,
       KEY_X = 27, KEY_R = 21, KEY_B = 5, KEY_Q = 20,
       MAGIC_KEY = \<lparr> ltype = 1, lvalue = 0x80 \<rparr>,
       IS_MODIFIER = (\<lambda>e. ltype e = 1) \<rparr>"

text \<open>Matrix samples in which only key 0, or only keys 0 and 1, are closed.\<close>

definition only_magic :: "u8 \<Rightarrow> u8 \<Rightarrow> u8" where
  "only_magic r col = (if r = 0 \<and> col = 0 then 1 else 0)"

definition magic_and_r :: "u8 \<Rightarrow> u8 \<Rightarrow> u8" where
  "magic_and_r r col = (if r = 0 \<and> (col = 0 \<or> col = 1) then 1 else 0)"

text \<open>
  The magic key is pressed and held; then the R key is pressed, bounces open for one scan
  and is closed again.
\<close>

definition replay_then_bounce :: result where
  "replay_then_bounce =
     run 1 tiny_cfg
       (replicate 7 only_magic @ replicate 7 magic_and_r @ [only_magic] @
        replicate 7 magic_and_r) init"

text \<open>
  The arrays have their declared sizes, the seventh slot of the queue is zero and the macro
  holds at most 254 entries.
\<close>

definition sane :: "state \<Rightarrow> bool" where
  "sane s \<longleftrightarrow> wf_arrays s \<and> queue s ! 6 = 0 \<and> unat (replay_buf_len s) \<le> 254"

text \<open>The matrix has no more positions than the key table has entries.\<close>

definition config_ok :: "config \<Rightarrow> bool" where
  "config_ok c \<longleftrightarrow> unat (NROW c) * unat (NCOL c) \<le> unat (NKEY c)"

text \<open>
  What a scan keeps true: the mode flags exclude each other, the macro holds only indices
  of the key table that are not the magic key, only keys of the table have their flag set,
  and no magic key has its flag set while a recording runs.
\<close>

definition steady :: "config \<Rightarrow> state \<Rightarrow> bool" where
  "steady c s \<longleftrightarrow>
     mode_inv s \<and>
     (\<forall>k\<in>set (macro s). \<not> is_magic_key c k \<and> k < NKEY c) \<and>
     (\<forall>k. pressed (key s k) \<longrightarrow> k < NKEY c) \<and>
     (recording_mode s \<longrightarrow> (\<forall>k. is_magic_key c k \<longrightarrow> \<not> pressed (key s k)))"

text \<open>
  A run ends, by returning or in the bootloader, in a state with the property; it exceeds
  the bound on nested replays only if that bound is zero.
\<close>

fun ends_within :: "nat \<Rightarrow> (state \<Rightarrow> bool) \<Rightarrow> result \<Rightarrow> bool" where
  "ends_within n P (Running s) = P s"
| "ends_within n P (Bootloader s) = P s"
| "ends_within n P Exhausted = (n = 0)"

section \<open>The report queue: closed forms\<close>

lemma length_7_cases:
  "length (q::'a list) = 7 \<Longrightarrow> \<exists>a b c d e f g. q = [a, b, c, d, e, f, g]"
  by (auto simp: length_Suc_conv numeral_eq_Suc)

lemma length_6_cases:
  "length (q::'a list) = 6 \<Longrightarrow> \<exists>a b c d e f. q = [a, b, c, d, e, f]"
  by (auto simp: length_Suc_conv numeral_eq_Suc)

lemma replicate_6: "replicate 6 x = [x, x, x, x, x, x]"
  by (simp add: numeral_eq_Suc)

lemma upt_6: "[0..<6] = [0, 1, 2, 3, 4, 5]"
  by (simp add: upt_rec)

lemma upt_7: "[0..<7] = [0, 1, 2, 3, 4, 5, 6]"
  by (simp add: upt_rec)

lemma ll_key_press_loop_7:
  "ll_key_press_loop 5 [a, b, c, d, e, f, g] = [a, a, b, c, d, e, g]"
  by (simp add: numeral_eq_Suc)

lemma send_7:
  "length (keyboard_keys s) = 6 \<Longrightarrow> queue s = [a, b, c, d, e, f, g] \<Longrightarrow>
   send s = s\<lparr> keyboard_keys := [a, b, c, d, e, f], keyboard_modifier_keys := mod_keys s,
              usb_out := usb_out s @ [([a, b, c, d, e, f], mod_keys s)] \<rparr>"
  by (auto simp: send_def upt_6 Let_def dest!: length_6_cases)

lemma ll_key_press_7:
  "length (keyboard_keys s) = 6 \<Longrightarrow> queue s = [a, b, c, d, e, f, g] \<Longrightarrow>
   ll_key_press k s =
     s\<lparr> queue := [k, a, b, c, d, e, g], keyboard_keys := [k, a, b, c, d, e],
        keyboard_modifier_keys := mod_keys s,
        usb_out := usb_out s @ [([k, a, b, c, d, e], mod_keys s)] \<rparr>"
  by (simp add: ll_key_press_def ll_key_press_loop_7 send_7)

lemma send_take:
  "length (keyboard_keys s) = 6 \<Longrightarrow> length (queue s) = 7 \<Longrightarrow>
   send s = s\<lparr> keyboard_keys := take 6 (queue s), keyboard_modifier_keys := mod_keys s,
              usb_out := usb_out s @ [(take 6 (queue s), mod_keys s)] \<rparr>"
  by (auto dest!: length_7_cases simp: send_7)

lemma remove_slot_7:
  "remove_slot k [a, b, c, d, e, f, g] =
     (if a = k then [b, c, d, e, f, g, g]
      else if b = k then [a, c, d, e, f, g, g]
      else if c = k then [a, b, d, e, f, g, g]
      else if d = k then [a, b, c, e, f, g, g]
      else if e = k then [a, b, c, d, f, g, g]
      else if f = k then [a, b, c, d, e, g, g]
      else [a, b, c, d, e, f, g])"
  by (simp add: remove_slot_def)

lemma length_remove_slot: "length q = 7 \<Longrightarrow> length (remove_slot k q) = 7"
  by (auto dest!: length_7_cases simp: remove_slot_7)

lemma ll_key_release_closed:
  "wf_arrays s \<Longrightarrow>
   ll_key_release k s =
     s\<lparr> queue := remove_slot k (queue s), keyboard_keys := take 6 (remove_slot k (queue s)),
        keyboard_modifier_keys := mod_keys s,
        usb_out := usb_out s @ [(take 6 (remove_slot k (queue s)), mod_keys s)] \<rparr>"
proof -
  assume wf: "wf_arrays s"
  have "ll_key_release k s = send (s\<lparr> queue := remove_slot k (queue s) \<rparr>)"
    by (simp only: ll_key_release_def remove_slot_def)
  also have "\<dots> = s\<lparr> queue := remove_slot k (queue s),
        keyboard_keys := take 6 (remove_slot k (queue s)),
        keyboard_modifier_keys := mod_keys s,
        usb_out := usb_out s @ [(take 6 (remove_slot k (queue s)), mod_keys s)] \<rparr>"
    using wf by (subst send_take) (simp_all add: wf_arrays_def length_remove_slot)
  finally show ?thesis .
qed

lemma wf_ll_key_press: "wf_arrays s \<Longrightarrow> wf_arrays (ll_key_press k s)"
  unfolding wf_arrays_def
  by (auto dest!: length_7_cases simp: ll_key_press_7)

lemma wf_ll_key_release: "wf_arrays s \<Longrightarrow> wf_arrays (ll_key_release k s)"
  by (simp add: ll_key_release_closed) (simp add: wf_arrays_def length_remove_slot)

lemma queue_ll_key_press:
  "wf_arrays s \<Longrightarrow> queue (ll_key_press k s) = k # take 5 (queue s) @ [queue s ! 6]"
  unfolding wf_arrays_def
  by (auto dest!: length_7_cases simp: ll_key_press_7)

lemma take_6_ll_key_press:
  "wf_arrays s \<Longrightarrow> take 6 (queue (ll_key_press k s)) = k # take 5 (queue s)"
  unfolding wf_arrays_def
  by (auto dest!: length_7_cases simp: ll_key_press_7)

lemma take_Suc_append_Cons_take:
  "take (Suc m) (xs @ k # take m q) = take (Suc m) (xs @ k # q)"
  by (cases "length xs \<le> m") (auto simp: Suc_diff_le min_def)

lemma fold_ll_key_press:
  "wf_arrays s \<Longrightarrow>
   wf_arrays (fold ll_key_press ks s) \<and>
   take 6 (queue (fold ll_key_press ks s)) = take 6 (rev ks @ take 6 (queue s)) \<and>
   trace (fold ll_key_press ks s) = trace s \<and>
   key (fold ll_key_press ks s) = key s"
proof (induction ks arbitrary: s)
  case Nil
  then show ?case by simp
next
  case (Cons k ks)
  have wf: "wf_arrays (ll_key_press k s)"
    using Cons.prems by (rule wf_ll_key_press)
  have t: "trace (ll_key_press k s) = trace s" "key (ll_key_press k s) = key s"
    by (simp_all add: ll_key_press_def send_def Let_def)
  have "take 6 (rev ks @ k # take 5 (queue s)) = take 6 (rev ks @ k # take 6 (queue s))"
    using take_Suc_append_Cons_take [of 5 "rev ks" k "queue s"]
          take_Suc_append_Cons_take [of 5 "rev ks" k "take 6 (queue s)"]
    by simp
  then show ?case
    using Cons.IH [OF wf] Cons.prems by (simp add: take_6_ll_key_press t)
qed


lemma remove_slot_present:
  "length q = 7 \<Longrightarrow> k \<in> set (take 6 q) \<Longrightarrow>
   take 6 (remove_slot k q) = remove1 k (take 6 q) @ [q ! 6] \<and> remove_slot k q ! 6 = q ! 6"
  by (auto dest!: length_7_cases simp: remove_slot_7)

lemma remove_slot_absent:
  "length q = 7 \<Longrightarrow> k \<notin> set (take 6 q) \<Longrightarrow> remove_slot k q = q"
  by (auto dest!: length_7_cases simp: remove_slot_7)

lemma wf_init: "wf_arrays init"
  by (simp add: wf_arrays_def init_def)

lemma two_held_eq:
  "two_held = init\<lparr> queue := [5, 4, 0, 0, 0, 0, 0], keyboard_keys := [5, 4, 0, 0, 0, 0],
       usb_out := [([4, 0, 0, 0, 0, 0], 0), ([5, 4, 0, 0, 0, 0], 0)] \<rparr>"
  by (simp add: two_held_def init_def ll_key_press_7)

text \<open>
  Claim C5. For a normal key, \<open>ll_key_release\<close> removes the code from the first of the six
  report slots that holds it, moves the later entries one slot to the left and fills the
  freed last slot with zero (the content of the seventh slot); for a code that is in none
  of the six slots it leaves the whole queue unchanged. The modifier byte is unchanged in
  both cases, and the function always returns.
\<close>

theorem release_removes_code:
  assumes "wf_arrays s" and "queue s ! 6 = 0"
  shows "(k \<in> set (take 6 (queue s)) \<longrightarrow>
            take 6 (queue (ll_key_release k s)) = remove1 k (take 6 (queue s)) @ [0]) \<and>
         (k \<notin> set (take 6 (queue s)) \<longrightarrow> queue (ll_key_release k s) = queue s) \<and>
         mod_keys (ll_key_release k s) = mod_keys s"
  using assms remove_slot_present [of "queue s" k] remove_slot_absent [of "queue s" k]
  by (simp add: ll_key_release_closed) (simp add: wf_arrays_def)

theorem release_removes_code_witness:
  "wf_arrays two_held \<and> queue two_held ! 6 = 0 \<and> 4 \<in> set (take 6 (queue two_held)) \<and>
   take 6 (queue (ll_key_release 4 two_held)) = [5, 0, 0, 0, 0, 0] \<and>
   9 \<notin> set (take 6 (queue two_held)) \<and>
   queue (ll_key_release 9 two_held) = [5, 4, 0, 0, 0, 0, 0]"
proof -
  have h: "wf_arrays two_held" "queue two_held ! 6 = 0"
    by (simp_all add: two_held_eq wf_arrays_def init_def)
  show ?thesis
    using release_removes_code [OF h, of 4] release_removes_code [OF h, of 9] h
    by (simp add: two_held_eq)
qed


text \<open>
  Claim C2. \<open>ll_key_press\<close> moves slots 0..4 to slots 1..5, dropping the old content of
  slot 5, and puts the code in slot 0; it calls no dispatcher function and transmits one
  report. Hence after at most six presses from an empty queue the six slots hold the
  pressed codes, most recent first, padded with zeros; and after a seventh press the slots
  hold the last six codes, the first code pressed is gone, and no edge was dispatched for
  it.
\<close>

theorem press_shifts_and_evicts:
  assumes "wf_arrays s"
  shows "queue (ll_key_press k s) = k # take 5 (queue s) @ [queue s ! 6] \<and>
         mod_keys (ll_key_press k s) = mod_keys s \<and>
         trace (ll_key_press k s) = trace s \<and>
         usb_out (ll_key_press k s) = usb_out s @ [(k # take 5 (queue s), mod_keys s)] \<and>
         (take 6 (queue s) = [0, 0, 0, 0, 0, 0] \<longrightarrow> length ks \<le> 6 \<longrightarrow> distinct ks \<longrightarrow>
            take 6 (queue (fold ll_key_press ks s)) = rev ks @ replicate (6 - length ks) 0) \<and>
         (length ks = 6 \<longrightarrow> distinct (ks @ [k]) \<longrightarrow>
            take 6 (queue (fold ll_key_press (ks @ [k]) s)) = k # rev (tl ks) \<and>
            hd ks \<notin> set (take 6 (queue (fold ll_key_press (ks @ [k]) s))) \<and>
            trace (fold ll_key_press (ks @ [k]) s) = trace s)"
proof -
  have one: "queue (ll_key_press k s) = k # take 5 (queue s) @ [queue s ! 6]"
    using assms by (rule queue_ll_key_press)
  have other: "mod_keys (ll_key_press k s) = mod_keys s" "trace (ll_key_press k s) = trace s"
    by (simp_all add: ll_key_press_def send_def Let_def)
  have out: "usb_out (ll_key_press k s) = usb_out s @ [(k # take 5 (queue s), mod_keys s)]"
    using assms unfolding wf_arrays_def by (auto dest!: length_7_cases simp: ll_key_press_7)
  have upto6: "take 6 (queue (fold ll_key_press ks s)) = rev ks @ replicate (6 - length ks) 0"
    if z: "take 6 (queue s) = [0, 0, 0, 0, 0, 0]" and len: "length ks \<le> 6"
  proof -
    have "take 6 (queue s) = replicate 6 0"
      by (simp only: z replicate_6)
    then show ?thesis
      using fold_ll_key_press [OF assms, of ks] len by simp
  qed
  have seventh: "take 6 (queue (fold ll_key_press (ks @ [k]) s)) = k # rev (tl ks) \<and>
      hd ks \<notin> set (take 6 (queue (fold ll_key_press (ks @ [k]) s))) \<and>
      trace (fold ll_key_press (ks @ [k]) s) = trace s"
    if len: "length ks = 6" and d: "distinct (ks @ [k])"
  proof -
    obtain a b c d e f where ks: "ks = [a, b, c, d, e, f]"
      using len length_6_cases by blast
    show ?thesis
      using fold_ll_key_press [OF assms, of "ks @ [k]"] d by (auto simp: ks)
  qed
  show ?thesis using one other out upto6 seventh by blast
qed

theorem press_shifts_and_evicts_witness:
  "wf_arrays init \<and>
   queue (ll_key_press 10 init) = [10, 0, 0, 0, 0, 0, 0] \<and>
   take 6 (queue (fold ll_key_press [4, 5, 6, 7, 8, 9] init)) = [9, 8, 7, 6, 5, 4] \<and>
   take 6 (queue (fold ll_key_press [4, 5, 6, 7, 8, 9, 10] init)) = [10, 9, 8, 7, 6, 5] \<and>
   trace (fold ll_key_press [4, 5, 6, 7, 8, 9, 10] init) = []"
  using press_shifts_and_evicts [OF wf_init, of 10 "[4, 5, 6, 7, 8, 9]"]
  by (simp add: init_def ll_key_press_7 wf_arrays_def)


section \<open>The macro buffer\<close>

lemma u8_of_nat_neq: "i < unat (w::u8) \<Longrightarrow> of_nat i \<noteq> w"
proof
  assume a: "i < unat w" and e: "of_nat i = w"
  have "unat w < 256" using unsigned_less [of w] by simp
  then have "unat (of_nat i :: u8) = i" using a by (simp add: unat_of_nat)
  then show False using a e by simp
qed

lemma u8_succ: "unat (w::u8) < 255 \<Longrightarrow> unat (w + 1) = unat w + 1"
  by (simp add: unat_word_ariths)

lemma macro_add_to_replay_buf:
  assumes "unat (replay_buf_len s) < 254"
  shows "macro (add_to_replay_buf k s) = macro s @ [k]"
proof -
  let ?n = "replay_buf_len s"
  have len: "unat (?n + 1) = unat ?n + 1" using assms by (simp add: u8_succ)
  show ?thesis
    using assms by (auto simp: macro_def add_to_replay_buf_def len dest: u8_of_nat_neq)
qed

lemma funpow_add_to_replay_buf:
  "n \<le> 254 \<Longrightarrow> recording_mode s \<Longrightarrow> replay_buf_len s = 0 \<Longrightarrow>
   replay_buf_len ((add_to_replay_buf k ^^ n) s) = of_nat n \<and>
   recording_mode ((add_to_replay_buf k ^^ n) s)"
proof (induction n)
  case 0
  then show ?case by simp
next
  case (Suc n)
  then have "unat (of_nat n :: u8) = n" by (simp add: unat_of_nat)
  then show ?case using Suc by (simp add: add_to_replay_buf_def)
qed

lemma nearly_full_facts:
  "replay_buf_len nearly_full = 254" "recording_mode nearly_full"
  using funpow_add_to_replay_buf [of 254 "init\<lparr> recording_mode := True \<rparr>" 7]
  by (simp_all add: nearly_full_def init_def)

section \<open>Invariants of the dispatcher\<close>

text \<open>
  A property of the state that every primitive step preserves is preserved by
  \<open>key_release\<close>, by \<open>key_press\<close> with the replay it may start, and by the scan.
\<close>

lemma key_release_preserves:
  assumes flag: "\<And>s j b e. P s \<Longrightarrow>
        P (s\<lparr> key := (key s)(j := (key s j)\<lparr> pressed := b \<rparr>), trace := trace s @ [e] \<rparr>)"
    and start: "\<And>s. P s \<Longrightarrow> magic_mode s \<Longrightarrow>
                  P (clear_pressed c (s\<lparr> recording_mode := True, replay_buf_len := 0, magic_mode := False \<rparr>))"
    and buf: "\<And>s j. P s \<Longrightarrow> \<not> magic_mode s \<Longrightarrow> recording_mode s \<Longrightarrow> P (add_to_replay_buf j s)"
    and modr: "\<And>s m. P s \<Longrightarrow> P (ll_modifier_release m s)"
    and keyr: "\<And>s v. P s \<Longrightarrow> P (ll_key_release v s)"
  shows "P s \<Longrightarrow> P (key_release c k s)"
proof -
  assume p: "P s"
  let ?s1 = "s\<lparr> key := (key s)(k := (key s k)\<lparr> pressed := False \<rparr>), trace := trace s @ [Release k] \<rparr>"
  have p1: "P ?s1" using p by (rule flag)
  show ?thesis
    unfolding key_release_def Let_def magic_key_release_def
    using p1 start [of ?s1] buf [of ?s1 k] modr keyr by auto
qed

lemma dispatcher_preserves:
  assumes flag: "\<And>s j b e. P s \<Longrightarrow>
        P (s\<lparr> key := (key s)(j := (key s j)\<lparr> pressed := b \<rparr>), trace := trace s @ [e] \<rparr>)"
    and rel: "\<And>s j c. P s \<Longrightarrow> P (key_release c j s)"
    and moff: "\<And>s. P s \<Longrightarrow> P (s\<lparr> magic_mode := False \<rparr>)"
    and mon: "\<And>s. P s \<Longrightarrow> \<not> magic_mode s \<Longrightarrow> \<not> recording_mode s \<Longrightarrow> P (s\<lparr> magic_mode := True \<rparr>)"
    and roff: "\<And>s. P s \<Longrightarrow> \<not> magic_mode s \<Longrightarrow> P (s\<lparr> recording_mode := False \<rparr>)"
    and buf: "\<And>s j. P s \<Longrightarrow> \<not> magic_mode s \<Longrightarrow> recording_mode s \<Longrightarrow> P (add_to_replay_buf j s)"
    and modp: "\<And>s m. P s \<Longrightarrow> P (ll_modifier_press m s)"
    and keyp: "\<And>s v. P s \<Longrightarrow> P (ll_key_press v s)"
    and keyr: "\<And>s v. P s \<Longrightarrow> P (ll_key_release v s)"
    and clr: "\<And>s c. P s \<Longrightarrow> P (clear_pressed c s)"
  shows "P s \<Longrightarrow> holds_after P (key_press n c k s)"
    and "P s \<Longrightarrow> holds_after P (magic_key_press n c k s)"
    and "P s \<Longrightarrow> holds_after P (replay_keypresses n c s)"
    and "P s \<Longrightarrow> holds_after P (replay_loop n c i s)"
proof (induction n c k s and n c k s and n c s and n c i s
       rule: key_press_magic_key_press_replay_keypresses_replay_loop.induct)
  case (1 n c k s)
  let ?s1 = "s\<lparr> key := (key s)(k := (key s k)\<lparr> pressed := True \<rparr>), trace := trace s @ [Press k] \<rparr>"
  have p1: "P ?s1" using 1(2) by (rule flag)
  show ?case
    using p1 1(1) [of ?s1] mon [of ?s1] roff [of ?s1] buf [of ?s1 k] modp keyp
    by (subst key_press.simps) (auto simp: Let_def)
next
  case (2 n c k s)
  define s1 where "s1 = (if is_magic_key c k then s\<lparr> magic_mode := False \<rparr> else s)"
  define s2 where "s2 = (if lvalue (layout c k) = KEY_X c
             then ll_key_release (KEY_X c) (ll_key_press (KEY_X c)
                    (ll_key_release (KEY_X c) (ll_key_press (KEY_X c) s1)))
             else s1)"
  define r where "r = (if lvalue (layout c k) = KEY_R c
             then replay_keypresses n c (s2\<lparr> magic_mode := False \<rparr>) else Running s2)"
  have p1: "P s1" using 2(2) moff by (simp add: s1_def)
  have p2: "P s2" using p1 keyp keyr by (simp add: s2_def)
  have p3: "P (s2\<lparr> magic_mode := False \<rparr>)" using p2 by (rule moff)
  have hr: "holds_after P r"
  proof (cases "lvalue (layout c k) = KEY_R c")
    case True
    then show ?thesis using 2(1) [OF s1_def s2_def True p3] by (simp add: r_def)
  next
    case False
    then show ?thesis using p2 by (simp add: r_def)
  qed
  have eq: "magic_key_press n c k s =
      (case r of Running s3 \<Rightarrow> if lvalue (layout c k) = KEY_B c then Bootloader s3 else Running s3
       | Bootloader s3 \<Rightarrow> Bootloader s3 | Exhausted \<Rightarrow> Exhausted)"
    by (subst magic_key_press.simps) (simp only: Let_def s1_def s2_def r_def)
  show ?case
    unfolding eq using hr by (cases r) simp_all
next
  case (3 c s)
  then show ?case by simp
next
  case (4 n c s)
  have "P (clear_pressed c s)" using 4(2) by (rule clr)
  then show ?case using 4(1) by simp
next
  case (5 n c i s)
  show ?case
  proof (cases "i < replay_buf_len s")
    case False
    then show ?thesis using 5(3) by (subst replay_loop.simps) simp
  next
    case True
    let ?k = "replay_buf s i"
    show ?thesis
    proof (cases "pressed (key s ?k)")
      case True
      have "P (key_release c ?k s)" using 5(3) by (rule rel)
      then show ?thesis
        using \<open>i < replay_buf_len s\<close> True 5(2) [of ?k "key_release c ?k s"]
        by (subst replay_loop.simps) (simp add: Let_def)
    next
      case False
      have h: "holds_after P (key_press n c ?k s)"
        using \<open>i < replay_buf_len s\<close> False 5(1) [of ?k] 5(3) by simp
      show ?thesis
        using \<open>i < replay_buf_len s\<close> False h 5(2) [of ?k]
        by (subst replay_loop.simps) (auto simp: Let_def split: result.splits)
    qed
  qed
qed

lemma u8_bound: "unat (w::u8) < 256"
  using unsigned_less [of w] by simp

lemma clear_flags_fold:
  "n \<le> 256 \<Longrightarrow>
   fold (\<lambda>i t. t(of_nat i := (t (of_nat i))\<lparr> pressed := False \<rparr>)) [0..<n] kt =
     (\<lambda>j::u8. if unat j < n then (kt j)\<lparr> pressed := False \<rparr> else kt j)"
proof (induction n)
  case 0
  then show ?case by simp
next
  case (Suc n)
  have n: "unat (of_nat n :: u8) = n" using Suc.prems by (simp add: unat_of_nat)
  have other: "unat j \<noteq> n" if "j \<noteq> of_nat n" for j :: u8
    using that by auto
  show ?case
    using Suc n by (auto simp: fun_eq_iff less_Suc_eq dest: other)
qed

lemma key_clear_pressed:
  "key (clear_pressed c s) =
     (\<lambda>j. if j < NKEY c then (key s j)\<lparr> pressed := False \<rparr> else key s j)"
proof -
  have "unat (NKEY c) \<le> 256" using u8_bound [of "NKEY c"] by simp
  then show ?thesis
    by (simp add: clear_pressed_def send_def Let_def clear_flags_fold word_less_nat_alt)
qed

lemma frame_send [simp]:
  "key (send s) = key s" "replay_buf (send s) = replay_buf s"
  "replay_buf_len (send s) = replay_buf_len s" "queue (send s) = queue s"
  "mod_keys (send s) = mod_keys s" "magic_mode (send s) = magic_mode s"
  "recording_mode (send s) = recording_mode s" "leds (send s) = leds s"
  "trace (send s) = trace s"
  by (simp_all add: send_def Let_def)

lemma frame_ll_key_press [simp]:
  "key (ll_key_press v s) = key s" "replay_buf (ll_key_press v s) = replay_buf s"
  "replay_buf_len (ll_key_press v s) = replay_buf_len s"
  "mod_keys (ll_key_press v s) = mod_keys s" "magic_mode (ll_key_press v s) = magic_mode s"
  "recording_mode (ll_key_press v s) = recording_mode s" "leds (ll_key_press v s) = leds s"
  "trace (ll_key_press v s) = trace s"
  by (simp_all add: ll_key_press_def)

lemma frame_ll_key_release [simp]:
  "key (ll_key_release v s) = key s" "replay_buf (ll_key_release v s) = replay_buf s"
  "replay_buf_len (ll_key_release v s) = replay_buf_len s"
  "mod_keys (ll_key_release v s) = mod_keys s" "magic_mode (ll_key_release v s) = magic_mode s"
  "recording_mode (ll_key_release v s) = recording_mode s" "leds (ll_key_release v s) = leds s"
  "trace (ll_key_release v s) = trace s"
  by (simp_all add: ll_key_release_def)

lemma frame_ll_modifier_press [simp]:
  "key (ll_modifier_press m s) = key s" "replay_buf (ll_modifier_press m s) = replay_buf s"
  "replay_buf_len (ll_modifier_press m s) = replay_buf_len s"
  "queue (ll_modifier_press m s) = queue s"
  "magic_mode (ll_modifier_press m s) = magic_mode s"
  "recording_mode (ll_modifier_press m s) = recording_mode s"
  "leds (ll_modifier_press m s) = leds s" "trace (ll_modifier_press m s) = trace s"
  by (simp_all add: ll_modifier_press_def)

lemma frame_ll_modifier_release [simp]:
  "key (ll_modifier_release m s) = key s"
  "replay_buf (ll_modifier_release m s) = replay_buf s"
  "replay_buf_len (ll_modifier_release m s) = replay_buf_len s"
  "queue (ll_modifier_release m s) = queue s"
  "magic_mode (ll_modifier_release m s) = magic_mode s"
  "recording_mode (ll_modifier_release m s) = recording_mode s"
  "leds (ll_modifier_release m s) = leds s" "trace (ll_modifier_release m s) = trace s"
  by (simp_all add: ll_modifier_release_def)

lemma frame_clear_pressed [simp]:
  "replay_buf (clear_pressed c s) = replay_buf s"
  "replay_buf_len (clear_pressed c s) = replay_buf_len s"
  "mod_keys (clear_pressed c s) = 0" "magic_mode (clear_pressed c s) = magic_mode s"
  "recording_mode (clear_pressed c s) = recording_mode s" "leds (clear_pressed c s) = leds s"
  "trace (clear_pressed c s) = trace s"
  by (simp_all add: clear_pressed_def Let_def)

lemma frame_add_to_replay_buf [simp]:
  "key (add_to_replay_buf k s) = key s" "queue (add_to_replay_buf k s) = queue s"
  "mod_keys (add_to_replay_buf k s) = mod_keys s"
  "magic_mode (add_to_replay_buf k s) = magic_mode s"
  "keyboard_keys (add_to_replay_buf k s) = keyboard_keys s"
  "usb_out (add_to_replay_buf k s) = usb_out s"
  "leds (add_to_replay_buf k s) = leds s" "trace (add_to_replay_buf k s) = trace s"
  by (simp_all add: add_to_replay_buf_def)

lemma mode_inv_key_release: "mode_inv s \<Longrightarrow> mode_inv (key_release c k s)"
  by (erule key_release_preserves [rotated -1])
     (simp_all add: mode_inv_def add_to_replay_buf_def)

lemma mode_inv_key_press: "mode_inv s \<Longrightarrow> holds_after mode_inv (key_press n c k s)"
  by (erule dispatcher_preserves(1) [rotated -1])
     (simp_all add: mode_inv_key_release, simp_all add: mode_inv_def add_to_replay_buf_def)

lemma scan_key_preserves:
  assumes bnc: "\<And>s j b. P s \<Longrightarrow> P (s\<lparr> key := (key s)(j := (key s j)\<lparr> bounce := b \<rparr>) \<rparr>)"
    and kp: "\<And>s. P s \<Longrightarrow> holds_after P (key_press n c k s)"
    and kr: "\<And>s. P s \<Longrightarrow> P (key_release c k s)"
  shows "P s \<Longrightarrow> holds_after P (scan_key n c k smp s)"
proof -
  assume p: "P s"
  define s1 where "s1 = s\<lparr> key := (key s)(k := (key s k)\<lparr> bounce := bounce (key s k) OR smp \<rparr>) \<rparr>"
  define r where "r = (if bounce (key s1 k) = 0x7F \<and> \<not> pressed (key s1 k)
                       then key_press n c k s1 else Running s1)"
  have p1: "P s1" unfolding s1_def using p by (rule bnc)
  have hr: "holds_after P r" using p1 kp [OF p1] by (simp add: r_def)
  have eq: "scan_key n c k smp s =
     (case r of
        Running s2 \<Rightarrow>
          (let s3 = (if bounce (key s2 k) = 0x80 \<and> pressed (key s2 k)
                     then key_release c k s2 else s2)
           in Running (s3\<lparr> key := (key s3)
                         (k := (key s3 k)\<lparr> bounce := push_bit 1 (bounce (key s3 k)) \<rparr>) \<rparr>))
      | Bootloader s2 \<Rightarrow> Bootloader s2
      | Exhausted \<Rightarrow> Exhausted)"
    by (simp only: scan_key_def Let_def s1_def r_def)
  show ?thesis
    unfolding eq using hr by (cases r) (auto simp: Let_def intro: bnc kr)
qed

lemma scan_cols_preserves:
  assumes "\<And>s n c k smp. P s \<Longrightarrow> holds_after P (scan_key n c k smp s)"
  shows "P s \<Longrightarrow> holds_after P (snd (scan_cols n c smp r col k s))"
proof (induction n c smp r col k s rule: scan_cols.induct)
  case (1 n c smp r col k s)
  have h: "holds_after P (scan_key n c k (smp r col) s)" using 1(2) by (rule assms)
  show ?case
  proof (cases "col < NCOL c")
    case False
    then show ?thesis using 1(2) by (subst scan_cols.simps) simp
  next
    case True
    show ?thesis
      using True h 1(1) by (subst scan_cols.simps) (auto split: result.splits)
  qed
qed

lemma scan_rows_preserves:
  assumes "\<And>s n c k smp. P s \<Longrightarrow> holds_after P (scan_key n c k smp s)"
  shows "P s \<Longrightarrow> holds_after P (scan_rows n c smp r k s)"
proof (induction n c smp r k s rule: scan_rows.induct)
  case (1 n c smp r k s)
  have h: "holds_after P (snd (scan_cols n c smp r 0 k s))"
    using assms 1(2) by (rule scan_cols_preserves)
  show ?case
  proof (cases "r < NROW c")
    case False
    then show ?thesis using 1(2) by (subst scan_rows.simps) simp
  next
    case True
    show ?thesis
      using True h 1(1) by (subst scan_rows.simps) (auto split: prod.splits result.splits)
  qed
qed

lemma isr_preserves:
  assumes "\<And>s n c k smp. P s \<Longrightarrow> holds_after P (scan_key n c k smp s)"
    and "\<And>s l. P s \<Longrightarrow> P (s\<lparr> leds := l \<rparr>)"
  shows "P s \<Longrightarrow> holds_after P (isr n c smp host_leds s)"
proof -
  assume "P s"
  then have "holds_after P (scan_rows n c smp 0 0 s)"
    using assms(1) by (rule scan_rows_preserves [rotated -1])
  then show ?thesis
    using assms(2) by (auto simp: isr_def split: result.splits)
qed

lemma mode_inv_scan_key: "mode_inv s \<Longrightarrow> holds_after mode_inv (scan_key n c k smp s)"
  by (erule scan_key_preserves [rotated -1])
     (simp_all add: mode_inv_key_press mode_inv_key_release, simp add: mode_inv_def)

lemma mode_inv_isr: "mode_inv s \<Longrightarrow> holds_after mode_inv (isr n c smp host_leds s)"
  by (erule isr_preserves [rotated -1]) (simp_all add: mode_inv_scan_key, simp add: mode_inv_def)

text \<open>
  Claim C8. In every reachable state \<open>magic_mode\<close> and \<open>recording_mode\<close> are not both
  set, and every call of \<open>key_release\<close> and \<open>key_press\<close> made in a state where they are
  not both set ends in such a state: \<open>recording_mode\<close> is set only together with clearing
  \<open>magic_mode\<close>, and \<open>magic_mode\<close> is set only when \<open>recording_mode\<close> is clear.
\<close>

theorem modes_exclusive:
  "(reachable c s \<longrightarrow> \<not> (magic_mode s \<and> recording_mode s)) \<and>
   (\<not> (magic_mode s \<and> recording_mode s) \<longrightarrow>
      \<not> (magic_mode (key_release c k s) \<and> recording_mode (key_release c k s)) \<and>
      holds_after (\<lambda>s'. \<not> (magic_mode s' \<and> recording_mode s')) (key_press n c k s))"
proof -
  have "mode_inv s" if "reachable c s"
    using that
  proof (induction rule: reachable.induct)
    case reachable_init
    then show ?case by (simp add: mode_inv_def init_def)
  next
    case (reachable_isr s n smp host_leds s')
    then show ?case using mode_inv_isr [of s n c smp host_leds] by simp
  qed
  then show ?thesis
    using mode_inv_key_release [of s c k] mode_inv_key_press [of s n c k]
    by (simp add: mode_inv_def [abs_def])
qed

theorem modes_exclusive_witness:
  "reachable demo_cfg init \<and>
   \<not> (magic_mode init \<and> recording_mode init) \<and>
   \<not> (magic_mode (key_release demo_cfg 2 (init\<lparr> magic_mode := True \<rparr>)) \<and>
      recording_mode (key_release demo_cfg 2 (init\<lparr> magic_mode := True \<rparr>))) \<and>
   recording_mode (key_release demo_cfg 2 (init\<lparr> magic_mode := True \<rparr>))"
  using modes_exclusive [of demo_cfg init 2 1]
        modes_exclusive [of demo_cfg "init\<lparr> magic_mode := True \<rparr>" 2 1]
        reachable_init [of demo_cfg]
  by (simp add: init_def key_release_def magic_key_release_def demo_cfg_def)

section \<open>The dispatcher case by case\<close>

lemma clear_pressed_closed:
  "wf_arrays s \<Longrightarrow>
   queue (clear_pressed c s) = [0, 0, 0, 0, 0, 0, 0] \<and>
   keyboard_keys (clear_pressed c s) = [0, 0, 0, 0, 0, 0] \<and>
   keyboard_modifier_keys (clear_pressed c s) = 0 \<and>
   usb_out (clear_pressed c s) = usb_out s @ [([0, 0, 0, 0, 0, 0], 0)]"
  unfolding wf_arrays_def
  by (auto dest!: length_7_cases simp: clear_pressed_def Let_def upt_7 send_7)

lemma key_press_normal:
  "\<not> magic_mode s \<Longrightarrow> \<not> is_magic_key c k \<Longrightarrow>
   key_press n c k s =
     (let s1 = s\<lparr> key := (key s)(k := (key s k)\<lparr> pressed := True \<rparr>),
                  trace := trace s @ [Press k] \<rparr>;
          s2 = (if recording_mode s then add_to_replay_buf k s1 else s1)
      in if IS_MODIFIER c (layout c k)
         then Running (ll_modifier_press (lvalue (layout c k)) s2)
         else Running (ll_key_press (lvalue (layout c k)) s2))"
  by (subst key_press.simps) (simp add: Let_def)

lemma key_press_magic:
  "magic_mode s \<Longrightarrow>
   key_press n c k s =
     magic_key_press n c k (s\<lparr> key := (key s)(k := (key s k)\<lparr> pressed := True \<rparr>),
                               trace := trace s @ [Press k] \<rparr>)"
  by (subst key_press.simps) (simp add: Let_def)

lemma magic_key_press_plain:
  "lvalue (layout c k) \<noteq> KEY_X c \<Longrightarrow> lvalue (layout c k) \<noteq> KEY_R c \<Longrightarrow>
   magic_key_press n c k s =
     (let s1 = (if is_magic_key c k then s\<lparr> magic_mode := False \<rparr> else s)
      in if lvalue (layout c k) = KEY_B c then Bootloader s1 else Running s1)"
  by (subst magic_key_press.simps) (simp add: Let_def)

lemma magic_key_press_self_test:
  "lvalue (layout c k) = KEY_X c \<Longrightarrow> lvalue (layout c k) \<noteq> KEY_R c \<Longrightarrow>
   magic_key_press n c k s =
     (let s1 = (if is_magic_key c k then s\<lparr> magic_mode := False \<rparr> else s);
          s2 = ll_key_release (KEY_X c) (ll_key_press (KEY_X c)
                 (ll_key_release (KEY_X c) (ll_key_press (KEY_X c) s1)))
      in if lvalue (layout c k) = KEY_B c then Bootloader s2 else Running s2)"
  by (subst magic_key_press.simps) (simp add: Let_def)

lemma key_release_magic:
  "magic_mode s \<Longrightarrow>
   key_release c k s =
     magic_key_release c k (s\<lparr> key := (key s)(k := (key s k)\<lparr> pressed := False \<rparr>),
                               trace := trace s @ [Release k] \<rparr>)"
  by (simp add: key_release_def Let_def)

lemma key_release_normal:
  "\<not> magic_mode s \<Longrightarrow>
   key_release c k s =
     (let s1 = s\<lparr> key := (key s)(k := (key s k)\<lparr> pressed := False \<rparr>),
                  trace := trace s @ [Release k] \<rparr>;
          s2 = (if recording_mode s then add_to_replay_buf k s1 else s1)
      in if IS_MODIFIER c (layout c k)
         then ll_modifier_release (lvalue (layout c k)) s2
         else ll_key_release (lvalue (layout c k)) s2)"
  by (simp add: key_release_def Let_def)

lemma self_test_queue:
  assumes "wf_arrays s"
  shows "queue (ll_key_release x (ll_key_press x (ll_key_release x (ll_key_press x s)))) =
           take 5 (queue s) @ [queue s ! 6, queue s ! 6] \<and>
         mod_keys (ll_key_release x (ll_key_press x (ll_key_release x (ll_key_press x s)))) =
           mod_keys s \<and>
         usb_out (ll_key_release x (ll_key_press x (ll_key_release x (ll_key_press x s)))) =
           usb_out s @ [(x # take 5 (queue s), mod_keys s),
                        (take 5 (queue s) @ [queue s ! 6], mod_keys s),
                        (x # take 5 (queue s), mod_keys s),
                        (take 5 (queue s) @ [queue s ! 6], mod_keys s)]"
proof -
  obtain q0 q1 q2 q3 q4 q5 q6 where q: "queue s = [q0, q1, q2, q3, q4, q5, q6]"
    using assms length_7_cases unfolding wf_arrays_def by blast
  have k: "length (keyboard_keys s) = 6" using assms by (simp add: wf_arrays_def)
  have 1: "ll_key_press x s = s\<lparr> queue := [x, q0, q1, q2, q3, q4, q6],
        keyboard_keys := [x, q0, q1, q2, q3, q4], keyboard_modifier_keys := mod_keys s,
        usb_out := usb_out s @ [([x, q0, q1, q2, q3, q4], mod_keys s)] \<rparr>"
    using k q by (rule ll_key_press_7)
  have w1: "wf_arrays (ll_key_press x s)" using assms by (rule wf_ll_key_press)
  have 2: "ll_key_release x (ll_key_press x s) = s\<lparr> queue := [q0, q1, q2, q3, q4, q6, q6],
        keyboard_keys := [q0, q1, q2, q3, q4, q6], keyboard_modifier_keys := mod_keys s,
        usb_out := usb_out s @ [([x, q0, q1, q2, q3, q4], mod_keys s),
                                ([q0, q1, q2, q3, q4, q6], mod_keys s)] \<rparr>"
    by (simp add: ll_key_release_closed [OF w1]) (simp add: 1 remove_slot_7)
  let ?t = "ll_key_release x (ll_key_press x s)"
  have w2: "wf_arrays ?t" using w1 by (rule wf_ll_key_release)
  have 3: "ll_key_press x ?t = s\<lparr> queue := [x, q0, q1, q2, q3, q4, q6],
        keyboard_keys := [x, q0, q1, q2, q3, q4], keyboard_modifier_keys := mod_keys s,
        usb_out := usb_out s @ [([x, q0, q1, q2, q3, q4], mod_keys s),
                                ([q0, q1, q2, q3, q4, q6], mod_keys s),
                                ([x, q0, q1, q2, q3, q4], mod_keys s)] \<rparr>"
    by (subst ll_key_press_7 [of ?t q0 q1 q2 q3 q4 q6 q6]) (simp_all add: 2)
  have w3: "wf_arrays (ll_key_press x ?t)" using w2 by (rule wf_ll_key_press)
  have 4: "ll_key_release x (ll_key_press x ?t) = s\<lparr> queue := [q0, q1, q2, q3, q4, q6, q6],
        keyboard_keys := [q0, q1, q2, q3, q4, q6], keyboard_modifier_keys := mod_keys s,
        usb_out := usb_out s @ [([x, q0, q1, q2, q3, q4], mod_keys s),
                                ([q0, q1, q2, q3, q4, q6], mod_keys s),
                                ([x, q0, q1, q2, q3, q4], mod_keys s),
                                ([q0, q1, q2, q3, q4, q6], mod_keys s)] \<rparr>"
    by (simp add: ll_key_release_closed [OF w3]) (simp add: 3 remove_slot_7)
  show ?thesis by (simp add: 4) (simp add: q)
qed

section \<open>Magic mode\<close>

text \<open>
  Claim C9, amended. In magic mode the release of a key whose layout value is \<open>KEY_Q\<close>
  starts a recording, and the transition performs exactly five things: the buffer length
  becomes 0, \<open>recording_mode\<close> is set, \<open>magic_mode\<close> is cleared, \<open>clear_pressed\<close> zeroes
  the queue and the modifier byte and transmits the empty report, and \<open>clear_pressed\<close>
  resets the pressed flag of every key of the matrix (of the released key too), with no
  release edge for the keys that are still held. Nothing else changes but the trace, so
  the recorded macro is empty after the transition. The press of that key in magic mode
  only sets its pressed flag.
\<close>

theorem recording_starts_on_release:
  assumes "magic_mode s" and "lvalue (layout c k) = KEY_Q c" and "wf_arrays s"
  shows "key_release c k s =
           s\<lparr> key := (\<lambda>j. if j < NKEY c \<or> j = k then (key s j)\<lparr> pressed := False \<rparr>
                           else key s j),
              replay_buf_len := 0,
              queue := [0, 0, 0, 0, 0, 0, 0],
              mod_keys := 0,
              magic_mode := False,
              recording_mode := True,
              keyboard_keys := [0, 0, 0, 0, 0, 0],
              keyboard_modifier_keys := 0,
              usb_out := usb_out s @ [([0, 0, 0, 0, 0, 0], 0)],
              trace := trace s @ [Release k] \<rparr> \<and>
         macro (key_release c k s) = [] \<and>
         (KEY_Q c \<noteq> KEY_X c \<and> KEY_Q c \<noteq> KEY_R c \<and> KEY_Q c \<noteq> KEY_B c \<and>
          \<not> is_magic_key c k \<longrightarrow>
            key_press n c k s =
              Running (s\<lparr> key := (key s)(k := (key s k)\<lparr> pressed := True \<rparr>),
                          trace := trace s @ [Press k] \<rparr>))"
proof -
  let ?s1 = "s\<lparr> key := (key s)(k := (key s k)\<lparr> pressed := False \<rparr>),
                 trace := trace s @ [Release k] \<rparr>"
  let ?s2 = "?s1\<lparr> recording_mode := True, replay_buf_len := 0, magic_mode := False \<rparr>"
  have rel: "key_release c k s = clear_pressed c ?s2"
    using assms(1,2) by (simp add: key_release_magic magic_key_release_def)
  have wf2: "wf_arrays ?s2" using assms(3) by (simp add: wf_arrays_def)
  have keys: "key (clear_pressed c ?s2) =
      (\<lambda>j. if j < NKEY c \<or> j = k then (key s j)\<lparr> pressed := False \<rparr> else key s j)"
    by (auto simp: key_clear_pressed fun_eq_iff)
  have "clear_pressed c ?s2 =
           s\<lparr> key := (\<lambda>j. if j < NKEY c \<or> j = k then (key s j)\<lparr> pressed := False \<rparr>
                           else key s j),
              replay_buf_len := 0,
              queue := [0, 0, 0, 0, 0, 0, 0],
              mod_keys := 0,
              magic_mode := False,
              recording_mode := True,
              keyboard_keys := [0, 0, 0, 0, 0, 0],
              keyboard_modifier_keys := 0,
              usb_out := usb_out s @ [([0, 0, 0, 0, 0, 0], 0)],
              trace := trace s @ [Release k] \<rparr>"
    using clear_pressed_closed [OF wf2, of c] keys
    by (intro state.equality) simp_all
  moreover have "macro (key_release c k s) = []"
    by (simp add: rel macro_def)
  moreover have "key_press n c k s =
              Running (s\<lparr> key := (key s)(k := (key s k)\<lparr> pressed := True \<rparr>),
                          trace := trace s @ [Press k] \<rparr>)"
    if "KEY_Q c \<noteq> KEY_X c" "KEY_Q c \<noteq> KEY_R c" "KEY_Q c \<noteq> KEY_B c" "\<not> is_magic_key c k"
    using that assms(1,2) by (simp add: key_press_magic magic_key_press_plain)
  ultimately show ?thesis using rel by simp
qed

theorem recording_starts_on_release_witness:
  "magic_mode (init\<lparr> magic_mode := True \<rparr>) \<and> lvalue (layout demo_cfg 2) = KEY_Q demo_cfg \<and>
   wf_arrays (init\<lparr> magic_mode := True \<rparr>) \<and>
   recording_mode (key_release demo_cfg 2 (init\<lparr> magic_mode := True \<rparr>)) \<and>
   \<not> magic_mode (key_release demo_cfg 2 (init\<lparr> magic_mode := True \<rparr>)) \<and>
   macro (key_release demo_cfg 2 (init\<lparr> magic_mode := True \<rparr>)) = [] \<and>
   usb_out (key_release demo_cfg 2 (init\<lparr> magic_mode := True \<rparr>)) = [([0, 0, 0, 0, 0, 0], 0)] \<and>
   key_press 1 demo_cfg 2 (init\<lparr> magic_mode := True \<rparr>) =
     Running (init\<lparr> magic_mode := True,
                     key := (key init)(2 := (key init 2)\<lparr> pressed := True \<rparr>),
                     trace := [Press 2] \<rparr>)"
proof -
  have h: "magic_mode (init\<lparr> magic_mode := True \<rparr>)"
    "lvalue (layout demo_cfg 2) = KEY_Q demo_cfg" "wf_arrays (init\<lparr> magic_mode := True \<rparr>)"
    by (simp_all add: demo_cfg_def wf_arrays_def init_def)
  have m: "\<not> is_magic_key demo_cfg 2" "KEY_Q demo_cfg \<noteq> KEY_X demo_cfg"
    "KEY_Q demo_cfg \<noteq> KEY_R demo_cfg" "KEY_Q demo_cfg \<noteq> KEY_B demo_cfg"
    by (simp_all add: demo_cfg_def is_magic_key_def)
  show ?thesis
    using recording_starts_on_release [OF h, of 1] h m
    by (simp add: init_def macro_def)
qed

text \<open>
  Claim C9 as stated fails: the transition does more than the four things it lists. Key 4
  is held when the Q key is released in magic mode; its pressed flag is set before the
  release and clear after it, and the trace holds no release edge of key 4.
\<close>

theorem recording_clears_flags_counterexample:
  "map_option magic_mode (final held_then_q) = Some True \<and>
   map_option (is_pressed 4) (final held_then_q) = Some True \<and>
   map_option recording_mode (final held_then_record) = Some True \<and>
   map_option (is_pressed 4) (final held_then_record) = Some False \<and>
   map_option trace (final held_then_record) = Some [Press 4, Press 0, Press 2, Release 2]"
  by code_simp

text \<open>
  Claim C6, amended. In magic mode no edge is forwarded to the report queue as a press or
  release of that key. A release leaves everything but the key's flag unchanged unless it
  is the release of the record key. A press leaves the queue, the modifier byte and the
  transmitted reports unchanged unless it is the press of the self-test key or of the
  replay key. The press of the self-test key sends \<open>KEY_X\<close> through \<open>ll_key_press\<close> and
  \<open>ll_key_release\<close> twice: four reports are transmitted, two of them with \<open>KEY_X\<close> in
  front, and the code in the sixth slot is lost. The claim as stated fails on that key.
\<close>

theorem magic_mode_routing:
  assumes "magic_mode s"
  shows "(lvalue (layout c k) \<noteq> KEY_Q c \<longrightarrow>
            key_release c k s =
              s\<lparr> key := (key s)(k := (key s k)\<lparr> pressed := False \<rparr>),
                 trace := trace s @ [Release k] \<rparr>) \<and>
         (lvalue (layout c k) \<noteq> KEY_X c \<and> lvalue (layout c k) \<noteq> KEY_R c \<longrightarrow>
            (\<exists>s'. (key_press n c k s = Running s' \<or> key_press n c k s = Bootloader s') \<and>
                  queue s' = queue s \<and> mod_keys s' = mod_keys s \<and> usb_out s' = usb_out s)) \<and>
         (lvalue (layout c k) = KEY_X c \<and> lvalue (layout c k) \<noteq> KEY_R c \<and> wf_arrays s \<longrightarrow>
            (\<exists>s'. (key_press n c k s = Running s' \<or> key_press n c k s = Bootloader s') \<and>
                  queue s' = take 5 (queue s) @ [queue s ! 6, queue s ! 6] \<and>
                  mod_keys s' = mod_keys s \<and>
                  usb_out s' = usb_out s @
                    [(KEY_X c # take 5 (queue s), mod_keys s),
                     (take 5 (queue s) @ [queue s ! 6], mod_keys s),
                     (KEY_X c # take 5 (queue s), mod_keys s),
                     (take 5 (queue s) @ [queue s ! 6], mod_keys s)]))"
proof -
  let ?s0 = "s\<lparr> key := (key s)(k := (key s k)\<lparr> pressed := True \<rparr>),
                 trace := trace s @ [Press k] \<rparr>"
  let ?s1 = "if is_magic_key c k then ?s0\<lparr> magic_mode := False \<rparr> else ?s0"
  have rel: "key_release c k s =
              s\<lparr> key := (key s)(k := (key s k)\<lparr> pressed := False \<rparr>),
                 trace := trace s @ [Release k] \<rparr>"
    if "lvalue (layout c k) \<noteq> KEY_Q c"
    using that assms by (simp add: key_release_magic magic_key_release_def)
  have plain: "\<exists>s'. (key_press n c k s = Running s' \<or> key_press n c k s = Bootloader s') \<and>
                  queue s' = queue s \<and> mod_keys s' = mod_keys s \<and> usb_out s' = usb_out s"
    if "lvalue (layout c k) \<noteq> KEY_X c" "lvalue (layout c k) \<noteq> KEY_R c"
  proof -
    have "key_press n c k s = (if lvalue (layout c k) = KEY_B c then Bootloader ?s1 else Running ?s1)"
      using that assms by (simp add: key_press_magic magic_key_press_plain Let_def)
    then show ?thesis by (intro exI [of _ ?s1]) simp
  qed
  have test: "\<exists>s'. (key_press n c k s = Running s' \<or> key_press n c k s = Bootloader s') \<and>
                  queue s' = take 5 (queue s) @ [queue s ! 6, queue s ! 6] \<and>
                  mod_keys s' = mod_keys s \<and>
                  usb_out s' = usb_out s @
                    [(KEY_X c # take 5 (queue s), mod_keys s),
                     (take 5 (queue s) @ [queue s ! 6], mod_keys s),
                     (KEY_X c # take 5 (queue s), mod_keys s),
                     (take 5 (queue s) @ [queue s ! 6], mod_keys s)]"
    if x: "lvalue (layout c k) = KEY_X c" "lvalue (layout c k) \<noteq> KEY_R c" and wf: "wf_arrays s"
  proof -
    let ?s2 = "ll_key_release (KEY_X c) (ll_key_press (KEY_X c)
                 (ll_key_release (KEY_X c) (ll_key_press (KEY_X c) ?s1)))"
    have wf1: "wf_arrays ?s1" using wf by (simp add: wf_arrays_def)
    have "key_press n c k s = (if lvalue (layout c k) = KEY_B c then Bootloader ?s2 else Running ?s2)"
      using x assms by (simp add: key_press_magic magic_key_press_self_test Let_def)
    then show ?thesis
      using self_test_queue [OF wf1, of "KEY_X c"] by (intro exI [of _ ?s2]) simp
  qed
  show ?thesis using rel plain test by blast
qed

theorem magic_mode_routing_witness:
  "magic_mode (init\<lparr> magic_mode := True \<rparr>) \<and>
   lvalue (layout demo_cfg 4) \<noteq> KEY_Q demo_cfg \<and>
   lvalue (layout demo_cfg 4) \<noteq> KEY_X demo_cfg \<and>
   lvalue (layout demo_cfg 4) \<noteq> KEY_R demo_cfg \<and>
   lvalue (layout demo_cfg 3) = KEY_X demo_cfg \<and>
   wf_arrays (init\<lparr> magic_mode := True \<rparr>) \<and>
   usb_out (key_release demo_cfg 4 (init\<lparr> magic_mode := True \<rparr>)) = [] \<and>
   trace (key_release demo_cfg 4 (init\<lparr> magic_mode := True \<rparr>)) = [Release 4] \<and>
   map_option usb_out (final (key_press 1 demo_cfg 4 (init\<lparr> magic_mode := True \<rparr>))) =
     Some [] \<and>
   map_option usb_out (final (key_press 1 demo_cfg 3 (init\<lparr> magic_mode := True \<rparr>))) =
     Some [([27, 0, 0, 0, 0, 0], 0), ([0, 0, 0, 0, 0, 0], 0),
           ([27, 0, 0, 0, 0, 0], 0), ([0, 0, 0, 0, 0, 0], 0)]"
proof -
  let ?s = "init\<lparr> magic_mode := True \<rparr>"
  have h: "magic_mode ?s" by simp
  have l: "lvalue (layout demo_cfg 4) \<noteq> KEY_Q demo_cfg"
    "lvalue (layout demo_cfg 4) \<noteq> KEY_X demo_cfg"
    "lvalue (layout demo_cfg 4) \<noteq> KEY_R demo_cfg"
    "lvalue (layout demo_cfg 3) = KEY_X demo_cfg"
    "lvalue (layout demo_cfg 3) \<noteq> KEY_R demo_cfg"
    "lvalue (layout demo_cfg 3) \<noteq> KEY_B demo_cfg"
    "lvalue (layout demo_cfg 4) \<noteq> KEY_B demo_cfg"
    by (simp_all add: demo_cfg_def)
  have w: "wf_arrays ?s" by (simp add: wf_arrays_def init_def)
  have q: "queue ?s = [0, 0, 0, 0, 0, 0, 0]" "mod_keys ?s = 0" "usb_out ?s = []"
    by (simp_all add: init_def)
  have rel: "usb_out (key_release demo_cfg 4 ?s) = []"
    "trace (key_release demo_cfg 4 ?s) = [Release 4]"
    using magic_mode_routing [OF h, of demo_cfg 4 1] l by (simp_all add: init_def)
  have a: "map_option usb_out (final (key_press 1 demo_cfg 4 ?s)) = Some []"
    using magic_mode_routing [OF h, of demo_cfg 4 1] l q
    by (auto simp: key_press_magic magic_key_press_plain Let_def)
  have x: "map_option usb_out (final (key_press 1 demo_cfg 3 ?s)) =
     Some [([27, 0, 0, 0, 0, 0], 0), ([0, 0, 0, 0, 0, 0], 0),
           ([27, 0, 0, 0, 0, 0], 0), ([0, 0, 0, 0, 0, 0], 0)]"
    using magic_mode_routing [OF h, of demo_cfg 3 1] l w q
    by (auto simp: key_press_magic magic_key_press_self_test Let_def) (simp_all add: demo_cfg_def)
  show ?thesis using h l w rel a x by simp
qed

text \<open>
  Claim C6 as stated fails: with six keys held, the press of the X key in magic mode
  transmits four reports and removes the oldest code from the queue.
\<close>

theorem magic_self_test_counterexample:
  "map_option magic_mode (final six_held_magic) = Some True \<and>
   map_option queue (final six_held_magic) = Some [10, 9, 8, 7, 6, 4, 0] \<and>
   map_option queue (final six_held_magic_x) = Some [10, 9, 8, 7, 6, 0, 0] \<and>
   map_option (drop 6 \<circ> usb_out) (final six_held_magic_x) =
     Some [([27, 10, 9, 8, 7, 6], 0), ([10, 9, 8, 7, 6, 0], 0),
           ([27, 10, 9, 8, 7, 6], 0), ([10, 9, 8, 7, 6, 0], 0)]"
  by code_simp

section \<open>The invariant of the report queue\<close>

text \<open>
  Claim C7 as stated fails: the queue holds no code twice before the last press of this
  sequence of edges and holds the code 4 twice after it.
\<close>

theorem press_held_code_counterexample:
  "map_option queue (final released_in_magic) = Some [4, 0, 0, 0, 0, 0, 0] \<and>
   map_option no_duplicates (final released_in_magic) = Some True \<and>
   map_option magic_mode (final released_in_magic) = Some False \<and>
   map_option queue (final pressed_again) = Some [4, 4, 0, 0, 0, 0, 0] \<and>
   map_option no_duplicates (final pressed_again) = Some False"
  by code_simp

lemma distinct_filter_remove1:
  "distinct (filter P xs) \<Longrightarrow> distinct (filter P (remove1 k xs))"
  by (induction xs) auto

lemma distinct_filter_take:
  "distinct (filter P xs) \<Longrightarrow> distinct (filter P (take n xs))"
proof -
  assume d: "distinct (filter P xs)"
  have "filter P xs = filter P (take n xs) @ filter P (drop n xs)"
    by (metis append_take_drop_id filter_append)
  then show ?thesis using d by (metis distinct_append)
qed

text \<open>
  Claim C7, amended. From a state in which the six slots hold no non-zero code twice (and
  slot 6 is zero), every \<open>ll_key_release\<close> leads to such a state again, and an
  \<open>ll_key_press\<close> does so exactly when its code is zero or is in none of the first five
  slots (the sixth slot is shifted out); at most six slots are occupied; a pressed code is
  put in slot 0, in front of the codes of the first five slots, and a released code is
  taken out of the first slot that holds it. The code has no check against a press of a
  code that the first five slots hold, and the dispatcher makes such a call when a key was
  released in magic mode and is pressed again.
\<close>

theorem queue_invariant:
  assumes "wf_arrays s" and "queue s ! 6 = 0" and "no_duplicates s"
  shows "occupied (ll_key_release k s) \<le> 6 \<and> no_duplicates (ll_key_release k s) \<and>
         wf_arrays (ll_key_release k s) \<and> queue (ll_key_release k s) ! 6 = 0 \<and>
         occupied (ll_key_press k s) \<le> 6 \<and>
         (no_duplicates (ll_key_press k s) \<longleftrightarrow> k = 0 \<or> k \<notin> set (take 5 (queue s))) \<and>
         wf_arrays (ll_key_press k s) \<and> queue (ll_key_press k s) ! 6 = 0 \<and>
         queue (ll_key_press k s) ! 0 = k \<and>
         take 6 (queue (ll_key_press k s)) = k # take 5 (queue s) \<and>
         (k \<in> set (take 6 (queue s)) \<longrightarrow>
            take 6 (queue (ll_key_release k s)) = remove1 k (take 6 (queue s)) @ [0])"
proof -
  have len: "length (queue s) = 7" using assms(1) by (simp add: wf_arrays_def)
  have occ: "occupied t \<le> 6" for t
    unfolding occupied_def
    by (rule order_trans [OF length_filter_le]) simp
  have rel: "no_duplicates (ll_key_release k s)"
  proof (cases "k \<in> set (take 6 (queue s))")
    case True
    then have "take 6 (queue (ll_key_release k s)) = remove1 k (take 6 (queue s)) @ [0]"
      using remove_slot_present [OF len True] assms(1,2)
      by (simp add: ll_key_release_closed)
    then show ?thesis
      using assms(3) by (simp add: no_duplicates_def distinct_filter_remove1)
  next
    case False
    then have "queue (ll_key_release k s) = queue s"
      using remove_slot_absent [OF len False] assms(1) by (simp add: ll_key_release_closed)
    then show ?thesis using assms(3) by (simp add: no_duplicates_def)
  qed
  have rel6: "queue (ll_key_release k s) ! 6 = 0"
    using assms(1,2) len
    by (simp add: ll_key_release_closed) (auto dest!: length_7_cases simp: remove_slot_7)
  have press: "no_duplicates (ll_key_press k s) \<longleftrightarrow> k = 0 \<or> k \<notin> set (take 5 (queue s))"
  proof -
    have "take 5 (queue s) = take 5 (take 6 (queue s))" by simp
    then have d: "distinct (filter (\<lambda>x. x \<noteq> 0) (take 5 (queue s)))"
      using assms(3) distinct_filter_take [of "\<lambda>x. x \<noteq> 0" "take 6 (queue s)" 5]
      by (simp add: no_duplicates_def)
    show ?thesis
      using d assms(1) by (auto simp: no_duplicates_def take_6_ll_key_press)
  qed
  have press6: "queue (ll_key_press k s) ! 6 = 0" "queue (ll_key_press k s) ! 0 = k"
    using assms(1,2) len by (auto dest!: length_7_cases simp: queue_ll_key_press)
  have front: "take 6 (queue (ll_key_press k s)) = k # take 5 (queue s)"
    using assms(1) by (rule take_6_ll_key_press)
  have removed: "k \<in> set (take 6 (queue s)) \<longrightarrow>
      take 6 (queue (ll_key_release k s)) = remove1 k (take 6 (queue s)) @ [0]"
    using remove_slot_present [OF len, of k] assms(1,2)
    by (simp add: ll_key_release_closed)
  show ?thesis
    using occ rel rel6 press press6 wf_ll_key_press [OF assms(1)] wf_ll_key_release [OF assms(1)]
      front removed
    by simp
qed

theorem queue_invariant_witness:
  "wf_arrays two_held \<and> queue two_held ! 6 = 0 \<and> no_duplicates two_held \<and>
   9 \<notin> set (take 5 (queue two_held)) \<and> 4 \<in> set (take 5 (queue two_held)) \<and>
   no_duplicates (ll_key_press 9 two_held) \<and> \<not> no_duplicates (ll_key_press 4 two_held) \<and>
   no_duplicates (ll_key_release 4 two_held) \<and>
   occupied (ll_key_press 9 two_held) \<le> 6 \<and> queue (ll_key_press 9 two_held) ! 0 = 9 \<and>
   take 6 (queue (ll_key_press 9 two_held)) = [9, 5, 4, 0, 0, 0] \<and>
   4 \<in> set (take 6 (queue two_held)) \<and>
   take 6 (queue (ll_key_release 4 two_held)) = [5, 0, 0, 0, 0, 0]"
proof -
  have h: "wf_arrays two_held" "queue two_held ! 6 = 0" "no_duplicates two_held"
    by (simp_all add: two_held_eq wf_arrays_def init_def no_duplicates_def)
  show ?thesis
    using queue_invariant [OF h, of 9] queue_invariant [OF h, of 4] h
    by (simp add: two_held_eq)
qed

section \<open>Replay\<close>

lemma press_step_normal:
  assumes "\<not> magic_mode s" and "\<not> recording_mode s" and "\<not> is_magic_key c k"
  shows "\<exists>s'. key_press n c k s = Running s' \<and> \<not> magic_mode s' \<and> \<not> recording_mode s' \<and>
              replay_buf s' = replay_buf s \<and> replay_buf_len s' = replay_buf_len s \<and>
              trace s' = trace s @ [Press k] \<and>
              key s' = (key s)(k := (key s k)\<lparr> pressed := True \<rparr>)"
  using assms by (simp add: key_press_normal Let_def)

lemma release_step_normal:
  assumes "\<not> magic_mode s" and "\<not> recording_mode s"
  shows "\<not> magic_mode (key_release c k s) \<and> \<not> recording_mode (key_release c k s) \<and>
         replay_buf (key_release c k s) = replay_buf s \<and>
         replay_buf_len (key_release c k s) = replay_buf_len s \<and>
         trace (key_release c k s) = trace s @ [Release k] \<and>
         key (key_release c k s) = (key s)(k := (key s k)\<lparr> pressed := False \<rparr>)"
  using assms by (simp add: key_release_normal Let_def)

lemma macro_nth:
  "i < replay_buf_len s \<Longrightarrow>
   drop (unat i) (macro s) = replay_buf s i # drop (Suc (unat i)) (macro s)"
proof -
  assume "i < replay_buf_len s"
  then have "unat i < length (macro s)" by (simp add: macro_def word_less_nat_alt)
  then show ?thesis
    by (simp add: Cons_nth_drop_Suc [symmetric]) (simp add: macro_def)
qed

lemma macro_cong:
  "replay_buf s' = replay_buf s \<Longrightarrow> replay_buf_len s' = replay_buf_len s \<Longrightarrow>
   macro s' = macro s"
  by (simp add: macro_def)

lemma replay_loop_as_edges:
  assumes "\<not> magic_mode s" and "\<not> recording_mode s"
    and "\<forall>k\<in>set (macro s). \<not> is_magic_key c k"
  shows "replay_loop n c i s = replay_edges n c (drop (unat i) (macro s)) s"
  using assms
proof (induction "unat (replay_buf_len s) - unat i" arbitrary: i s)
  case 0
  then have "\<not> i < replay_buf_len s" by (simp add: word_less_nat_alt)
  moreover from 0 have "drop (unat i) (macro s) = []" by (simp add: macro_def)
  ultimately show ?case by (subst replay_loop.simps) simp
next
  case (Suc m)
  then have lt: "i < replay_buf_len s" by (simp add: word_less_nat_alt)
  let ?k = "replay_buf s i"
  have suc: "unat (i + 1) = Suc (unat i)"
    using lt by unat_arith
  have kin: "?k \<in> set (macro s)"
    using macro_nth [OF lt] by (metis in_set_dropD list.set_intros(1))
  then have nm: "\<not> is_magic_key c ?k" using Suc.prems(3) by blast
  have step: "replay_loop n c (i + 1) s' = replay_edges n c (drop (Suc (unat i)) (macro s)) s'"
    if "\<not> magic_mode s'" "\<not> recording_mode s'"
       "replay_buf s' = replay_buf s" "replay_buf_len s' = replay_buf_len s" for s'
  proof -
    have m: "macro s' = macro s" using that(3,4) by (rule macro_cong)
    have "m = unat (replay_buf_len s') - unat (i + 1)"
      using Suc.hyps(2) suc that(4) by simp
    then show ?thesis
      using Suc.hyps(1) [of s' "i + 1"] that(1,2) Suc.prems(3) m suc by simp
  qed
  show ?case
  proof (cases "pressed (key s ?k)")
    case True
    show ?thesis
      using lt True release_step_normal [OF Suc.prems(1,2), of c ?k]
            step [of "key_release c ?k s"]
      by (subst replay_loop.simps) (simp add: macro_nth [OF lt] Let_def)
  next
    case False
    obtain s' where s': "key_press n c ?k s = Running s'" "\<not> magic_mode s'"
      "\<not> recording_mode s'" "replay_buf s' = replay_buf s"
      "replay_buf_len s' = replay_buf_len s"
      using press_step_normal [OF Suc.prems(1,2) nm, of n] by blast
    show ?thesis
      using lt False s'(1) step [OF s'(2-5)]
      by (subst replay_loop.simps) (simp add: macro_nth [OF lt] Let_def)
  qed
qed

lemma macro_frame [simp]:
  "macro (ll_key_press v s) = macro s" "macro (ll_key_release v s) = macro s"
  "macro (ll_modifier_press v s) = macro s" "macro (ll_modifier_release v s) = macro s"
  "macro (clear_pressed c s) = macro s"
  by (simp_all add: macro_def)

















section \<open>The debounce step\<close>

lemma bounce_key_release: "bounce (key (key_release c k s) j) = bounce (key s j)"
proof -
  have "bounce (key (key_release c k s) j) = b"
    if "bounce (key s j) = b" for b
    using that
    by (rule key_release_preserves [where P = "\<lambda>s. bounce (key s j) = b", rotated -1])
       (auto simp: key_clear_pressed)
  then show ?thesis by simp
qed

lemma bounce_key_press:
  "holds_after (\<lambda>s'. bounce (key s' j) = bounce (key s j)) (key_press n c k s)"
proof -
  have "holds_after (\<lambda>s'. bounce (key s' j) = b) (key_press n c k s)"
    if "bounce (key s j) = b" for b
    using that
    by (rule dispatcher_preserves(1) [where P = "\<lambda>s. bounce (key s j) = b", rotated -1])
       (auto simp: key_clear_pressed bounce_key_release)
  then show ?thesis by simp
qed

lemma pressed_after_key_press:
  assumes "\<not> magic_mode s \<or> lvalue (layout c k) \<noteq> KEY_R c"
  shows "holds_after (\<lambda>s'. pressed (key s' k)) (key_press n c k s)"
proof (cases "magic_mode s")
  case False
  then show ?thesis
    by (subst key_press.simps) (simp add: Let_def)
next
  case True
  then have r: "lvalue (layout c k) \<noteq> KEY_R c" using assms by simp
  show ?thesis
  proof (cases "lvalue (layout c k) = KEY_X c")
    case True
    then show ?thesis
      using \<open>magic_mode s\<close> r by (simp add: key_press_magic magic_key_press_self_test Let_def)
  next
    case False
    then show ?thesis
      using \<open>magic_mode s\<close> r by (simp add: key_press_magic magic_key_press_plain Let_def)
  qed
qed

lemma released_flag_clear: "\<not> pressed (key (key_release c k s) k)"
proof (cases "magic_mode s")
  case True
  then show ?thesis
    by (simp add: key_release_magic magic_key_release_def key_clear_pressed)
next
  case False
  then show ?thesis
    by (simp add: key_release_normal Let_def)
qed

lemma held_key_silent:
  assumes "bounce (key s k) = 0xFE"
  shows "scan_key n c k 1 s = Running s"
proof -
  have b: "bounce (key s k) OR 1 = 0xFF" using assms by simp
  have e: "(510::u8) = 0xFE" by simp
  have "key s k\<lparr>bounce := 0xFE\<rparr> = key s k"
    using assms [symmetric] by simp
  then have k: "(key s)(k := key s k\<lparr>bounce := 510\<rparr>) = key s"
    by (simp add: e)
  show ?thesis
    by (simp add: scan_key_def Let_def b k)
qed

lemma flags_kept_by_key_press:
  assumes "\<not> magic_mode s \<or> lvalue (layout c k) \<noteq> KEY_R c"
  shows "holds_after (\<lambda>s'. \<forall>j. j \<noteq> k \<longrightarrow> pressed (key s' j) = pressed (key s j))
           (key_press n c k s)"
proof (cases "magic_mode s")
  case False
  then show ?thesis
    by (subst key_press.simps) (simp add: Let_def)
next
  case True
  then have r: "lvalue (layout c k) \<noteq> KEY_R c" using assms by simp
  show ?thesis
  proof (cases "lvalue (layout c k) = KEY_X c")
    case True
    then show ?thesis
      using \<open>magic_mode s\<close> r by (simp add: key_press_magic magic_key_press_self_test Let_def)
  next
    case False
    then show ?thesis
      using \<open>magic_mode s\<close> r by (simp add: key_press_magic magic_key_press_plain Let_def)
  qed
qed

lemma flags_kept_by_key_release:
  assumes "\<not> magic_mode s \<or> lvalue (layout c k) \<noteq> KEY_Q c" and "j \<noteq> k"
  shows "pressed (key (key_release c k s) j) = pressed (key s j)"
proof (cases "magic_mode s")
  case True
  then show ?thesis
    using assms by (simp add: key_release_magic magic_key_release_def)
next
  case False
  then show ?thesis
    using assms(2) by (simp add: key_release_normal Let_def)
qed

text \<open>
  Claim C1, amended. The loop body calls \<open>key_press k\<close> exactly when the register, after
  the new sample has been or-ed in, is \<open>0x7F\<close> and the pressed flag is clear; it calls
  \<open>key_release k\<close> exactly when the register is \<open>0x80\<close> and the flag is set; otherwise it
  only shifts the register. So no press edge is emitted while the flag is set. After a
  press edge the register is \<open>0xFE\<close>, and as long as the key is held the loop body
  changes nothing. A press edge that starts no replay leaves the flag of its key set and
  the flags of the other keys as they were; a release edge that starts no recording
  changes no flag but that of its key. The flag is cleared by a release edge of the key,
  and by \<open>clear_pressed\<close>, which runs at the start of a replay and of a recording. So the
  press edge is not emitted again until the flag has been cleared, by a release edge or
  by \<open>clear_pressed\<close>, and a new qualifying run of samples has occurred.
\<close>

theorem scan_key_edges:
  "scan_key n c k smp s =
     (let b = bounce (key s k) OR smp;
          s1 = s\<lparr> key := (key s)(k := (key s k)\<lparr> bounce := b \<rparr>) \<rparr>
      in if b = 0x7F \<and> \<not> pressed (key s k)
         then (case key_press n c k s1 of
                 Running s2 \<Rightarrow> Running (shift_bounce k s2)
               | Bootloader s2 \<Rightarrow> Bootloader s2
               | Exhausted \<Rightarrow> Exhausted)
         else if b = 0x80 \<and> pressed (key s k)
         then Running (shift_bounce k (key_release c k s1))
         else Running (shift_bounce k s1)) \<and>
   (\<not> magic_mode s \<or> lvalue (layout c k) \<noteq> KEY_R c \<longrightarrow>
      holds_after (\<lambda>s'. pressed (key s' k)) (key_press n c k s)) \<and>
   (bounce (key s k) OR smp = 0x7F \<and> \<not> pressed (key s k) \<longrightarrow>
      (\<forall>s'. scan_key n c k smp s = Running s' \<longrightarrow> bounce (key s' k) = 0xFE)) \<and>
   (bounce (key s k) = 0xFE \<longrightarrow> scan_key n c k 1 s = Running s) \<and>
   \<not> pressed (key (key_release c k s) k) \<and>
   (k < NKEY c \<longrightarrow> \<not> pressed (key (clear_pressed c s) k)) \<and>
   (\<not> magic_mode s \<or> lvalue (layout c k) \<noteq> KEY_R c \<longrightarrow>
      holds_after (\<lambda>s'. \<forall>j. j \<noteq> k \<longrightarrow> pressed (key s' j) = pressed (key s j))
        (key_press n c k s)) \<and>
   (\<not> magic_mode s \<or> lvalue (layout c k) \<noteq> KEY_Q c \<longrightarrow>
      (\<forall>j. j \<noteq> k \<longrightarrow> pressed (key (key_release c k s) j) = pressed (key s j)))"
proof -
  define b where "b = bounce (key s k) OR smp"
  define s1 where "s1 = s\<lparr> key := (key s)(k := (key s k)\<lparr> bounce := b \<rparr>) \<rparr>"
  have b1: "bounce (key s1 k) = b" "pressed (key s1 k) = pressed (key s k)"
    by (simp_all add: s1_def)
  have eq: "scan_key n c k smp s =
     (case (if b = 0x7F \<and> \<not> pressed (key s k) then key_press n c k s1 else Running s1) of
        Running s2 \<Rightarrow>
          Running (shift_bounce k (if bounce (key s2 k) = 0x80 \<and> pressed (key s2 k)
                                   then key_release c k s2 else s2))
      | Bootloader s2 \<Rightarrow> Bootloader s2
      | Exhausted \<Rightarrow> Exhausted)"
    by (auto simp: scan_key_def Let_def b_def s1_def shift_bounce_def split: result.splits)
  have main: "scan_key n c k smp s =
     (if b = 0x7F \<and> \<not> pressed (key s k)
         then (case key_press n c k s1 of
                 Running s2 \<Rightarrow> Running (shift_bounce k s2)
               | Bootloader s2 \<Rightarrow> Bootloader s2
               | Exhausted \<Rightarrow> Exhausted)
         else if b = 0x80 \<and> pressed (key s k)
         then Running (shift_bounce k (key_release c k s1))
         else Running (shift_bounce k s1))"
  proof (cases "b = 0x7F \<and> \<not> pressed (key s k)")
    case True
    have "bounce (key s2 k) \<noteq> 0x80" if "key_press n c k s1 = Running s2" for s2
      using bounce_key_press [of k s1 n c k] that True b1 by simp
    then show ?thesis
      unfolding eq using True by (auto split: result.splits)
  next
    case False
    then show ?thesis
      unfolding eq using b1 by auto
  qed
  have after: "\<forall>s'. scan_key n c k smp s = Running s' \<longrightarrow> bounce (key s' k) = 0xFE"
    if p: "b = 0x7F" "\<not> pressed (key s k)"
  proof -
    have "bounce (key s2 k) = 0x7F" if "key_press n c k s1 = Running s2" for s2
      using bounce_key_press [of k s1 n c k] that p b1 by simp
    then show ?thesis
      unfolding main using p
      by (cases "key_press n c k s1") (auto simp: shift_bounce_def)
  qed
  have c1: "scan_key n c k smp s =
     (let b = bounce (key s k) OR smp;
          s1 = s\<lparr> key := (key s)(k := (key s k)\<lparr> bounce := b \<rparr>) \<rparr>
      in if b = 0x7F \<and> \<not> pressed (key s k)
         then (case key_press n c k s1 of
                 Running s2 \<Rightarrow> Running (shift_bounce k s2)
               | Bootloader s2 \<Rightarrow> Bootloader s2
               | Exhausted \<Rightarrow> Exhausted)
         else if b = 0x80 \<and> pressed (key s k)
         then Running (shift_bounce k (key_release c k s1))
         else Running (shift_bounce k s1))"
    using main by (simp add: Let_def b_def s1_def)
  have c2: "\<not> magic_mode s \<or> lvalue (layout c k) \<noteq> KEY_R c \<longrightarrow>
      holds_after (\<lambda>s'. pressed (key s' k)) (key_press n c k s)"
    using pressed_after_key_press [of s c k n] by blast
  have c3: "bounce (key s k) OR smp = 0x7F \<and> \<not> pressed (key s k) \<longrightarrow>
      (\<forall>s'. scan_key n c k smp s = Running s' \<longrightarrow> bounce (key s' k) = 0xFE)"
    using after unfolding b_def by blast
  have c4: "bounce (key s k) = 0xFE \<longrightarrow> scan_key n c k 1 s = Running s"
    using held_key_silent [of s k n c] by blast
  have c5: "\<not> pressed (key (key_release c k s) k)"
    by (rule released_flag_clear)
  have c6: "k < NKEY c \<longrightarrow> \<not> pressed (key (clear_pressed c s) k)"
    by (simp add: key_clear_pressed)
  have c7: "\<not> magic_mode s \<or> lvalue (layout c k) \<noteq> KEY_R c \<longrightarrow>
      holds_after (\<lambda>s'. \<forall>j. j \<noteq> k \<longrightarrow> pressed (key s' j) = pressed (key s j))
        (key_press n c k s)"
    using flags_kept_by_key_press [of s c k n] by blast
  have c8: "\<not> magic_mode s \<or> lvalue (layout c k) \<noteq> KEY_Q c \<longrightarrow>
      (\<forall>j. j \<noteq> k \<longrightarrow> pressed (key (key_release c k s) j) = pressed (key s j))"
    using flags_kept_by_key_release [of s c k] by blast
  show ?thesis
    by (rule conjI [OF c1 conjI [OF c2 conjI [OF c3 conjI [OF c4 conjI [OF c5
          conjI [OF c6 conjI [OF c7 c8]]]]]]])
qed

text \<open>
  Claim C1 as stated fails on this run of 22 scans of a two-key matrix: the trace of the
  dispatcher has two press edges of key 1 and no release edge.
\<close>

theorem press_twice_counterexample:
  "map_option trace (final replay_then_bounce) = Some [Press 0, Press 1, Press 1]"
  by code_simp

theorem scan_key_edges_witness:
  "scan_key 1 tiny_cfg 1 1
     (init\<lparr> key := (key init)(1 := \<lparr> pressed = False, bounce = 0x7E \<rparr>) \<rparr>) =
   Running (init\<lparr> key := (key init)(1 := \<lparr> pressed = True, bounce = 0xFE \<rparr>),
                   queue := [21, 0, 0, 0, 0, 0, 0],
                   keyboard_keys := [21, 0, 0, 0, 0, 0],
                   usb_out := [([21, 0, 0, 0, 0, 0], 0)],
                   trace := [Press 1] \<rparr>) \<and>
   scan_key 1 tiny_cfg 1 1
     (init\<lparr> key := (key init)(1 := \<lparr> pressed = True, bounce = 0x7E \<rparr>) \<rparr>) =
   Running (init\<lparr> key := (key init)(1 := \<lparr> pressed = True, bounce = 0xFE \<rparr>) \<rparr>) \<and>
   scan_key 1 tiny_cfg 1 1
     (init\<lparr> key := (key init)(1 := \<lparr> pressed = True, bounce = 0xFE \<rparr>) \<rparr>) =
   Running (init\<lparr> key := (key init)(1 := \<lparr> pressed = True, bounce = 0xFE \<rparr>) \<rparr>)"
  using scan_key_edges [of 1 tiny_cfg 1 1
          "init\<lparr> key := (key init)(1 := \<lparr> pressed = False, bounce = 0x7E \<rparr>) \<rparr>"]
        scan_key_edges [of 1 tiny_cfg 1 1
          "init\<lparr> key := (key init)(1 := \<lparr> pressed = True, bounce = 0x7E \<rparr>) \<rparr>"]
        scan_key_edges [of 1 tiny_cfg 1 1
          "init\<lparr> key := (key init)(1 := \<lparr> pressed = True, bounce = 0xFE \<rparr>) \<rparr>"]
  by (simp add: init_def tiny_cfg_def shift_bounce_def key_press_normal is_magic_key_def
      Let_def ll_key_press_7 fun_eq_iff)

section \<open>Reachable states\<close>

lemma length_keyboard_keys_send:
  "length (keyboard_keys (send s)) = length (keyboard_keys s)"
  by (simp add: send_def Let_def upt_6)

lemma sane_ll_key_press: "sane s \<Longrightarrow> sane (ll_key_press v s)"
proof -
  assume s: "sane s"
  then have wf: "wf_arrays s" and z: "queue s ! 6 = 0" by (simp_all add: sane_def)
  have "queue (ll_key_press v s) ! 6 = 0"
    using wf z by (simp add: queue_ll_key_press)
       (auto simp: wf_arrays_def dest!: length_7_cases)
  then show ?thesis
    using s wf_ll_key_press [OF wf, of v] by (simp add: sane_def)
qed

lemma sane_ll_key_release: "sane s \<Longrightarrow> sane (ll_key_release v s)"
proof -
  assume s: "sane s"
  then have wf: "wf_arrays s" and z: "queue s ! 6 = 0" by (simp_all add: sane_def)
  have "queue (ll_key_release v s) ! 6 = 0"
    using wf z by (simp add: ll_key_release_closed)
       (auto simp: wf_arrays_def remove_slot_7 dest!: length_7_cases)
  then show ?thesis
    using s wf_ll_key_release [OF wf, of v] by (simp add: sane_def)
qed

lemma sane_modifier:
  "sane s \<Longrightarrow> sane (ll_modifier_press m s)" "sane s \<Longrightarrow> sane (ll_modifier_release m s)"
  by (simp_all add: sane_def wf_arrays_def ll_modifier_press_def ll_modifier_release_def
      length_keyboard_keys_send)

lemma sane_clear_pressed: "wf_arrays s \<Longrightarrow> unat (replay_buf_len s) \<le> 254 \<Longrightarrow>
  sane (clear_pressed c s)"
  using clear_pressed_closed [of s c] by (simp add: sane_def wf_arrays_def)

lemma sane_add_to_replay_buf: "sane s \<Longrightarrow> sane (add_to_replay_buf k s)"
  by (auto simp: sane_def wf_arrays_def add_to_replay_buf_def u8_succ)

lemma sane_key_release: "sane s \<Longrightarrow> sane (key_release c k s)"
  by (erule key_release_preserves [rotated -1])
     (simp_all add: sane_ll_key_release sane_modifier sane_add_to_replay_buf,
      simp_all add: sane_def wf_arrays_def sane_clear_pressed [unfolded sane_def wf_arrays_def])

lemma sane_key_press: "sane s \<Longrightarrow> holds_after sane (key_press n c k s)"
  by (erule dispatcher_preserves(1) [rotated -1])
     (simp_all add: sane_ll_key_release sane_ll_key_press sane_modifier sane_add_to_replay_buf
        sane_key_release,
      simp_all add: sane_def wf_arrays_def sane_clear_pressed [unfolded sane_def wf_arrays_def])

lemma sane_isr: "sane s \<Longrightarrow> holds_after sane (isr n c smp host_leds s)"
proof (erule isr_preserves [rotated -1])
  show "holds_after sane (scan_key n c k smp s)" if "sane s" for s n c k smp
    using that
    by (rule scan_key_preserves [rotated -1])
       (simp_all add: sane_key_press sane_key_release, simp add: sane_def wf_arrays_def)
  show "sane (s\<lparr> leds := l \<rparr>)" if "sane s" for s l
    using that by (simp add: sane_def wf_arrays_def)
qed

lemma reachable_sane: "reachable c s \<Longrightarrow> sane s"
proof (induction rule: reachable.induct)
  case reachable_init
  then show ?case by (simp add: sane_def wf_arrays_def init_def)
next
  case (reachable_isr s n smp host_leds s')
  then show ?case using sane_isr [of s n c smp host_leds] by simp
qed

section \<open>The scan always returns\<close>

text \<open>
  In a reachable state a replay never starts another replay: the macro holds no magic key,
  so the replayed edges are handled in normal mode. Hence one level of replay is all the
  dispatcher ever needs, and an interrupt started in a reachable state returns or ends in
  the bootloader.
\<close>

lemma macro_upd [simp]:
  "macro (s\<lparr> key := kt \<rparr>) = macro s" "macro (s\<lparr> trace := tr \<rparr>) = macro s"
  "macro (s\<lparr> magic_mode := m \<rparr>) = macro s" "macro (s\<lparr> recording_mode := r \<rparr>) = macro s"
  "macro (s\<lparr> leds := l \<rparr>) = macro s" "macro (s\<lparr> replay_buf_len := 0 \<rparr>) = []"
  by (simp_all add: macro_def)

lemma steady_cong:
  "magic_mode s' = magic_mode s \<Longrightarrow> recording_mode s' = recording_mode s \<Longrightarrow>
   macro s' = macro s \<Longrightarrow> (\<And>k. pressed (key s' k) = pressed (key s k)) \<Longrightarrow>
   steady c s' = steady c s"
  by (simp add: steady_def mode_inv_def)

lemma macro_add_cases:
  "macro (add_to_replay_buf k s) = macro s \<or> macro (add_to_replay_buf k s) = macro s @ [k]"
proof (cases "unat (replay_buf_len s) < 254")
  case True
  then show ?thesis by (simp add: macro_add_to_replay_buf)
next
  case False
  then show ?thesis by (simp add: add_to_replay_buf_def macro_def)
qed

lemma recording_add: "recording_mode (add_to_replay_buf k s) \<Longrightarrow> recording_mode s"
  by (simp add: add_to_replay_buf_def split: if_splits)

lemma steady_add:
  assumes "steady c s" and "\<not> is_magic_key c k" and "k < NKEY c"
  shows "steady c (add_to_replay_buf k s)"
  using assms macro_add_cases [of k s] recording_add [of k s]
  by (auto simp: steady_def mode_inv_def)

lemma steady_press_normal:
  assumes "steady c s" and "\<not> magic_mode s" and "k < NKEY c"
  shows "\<exists>s'. key_press n c k s = Running s' \<and> steady c s'"
proof -
  let ?s1 = "s\<lparr> key := (key s)(k := (key s k)\<lparr> pressed := True \<rparr>),
                 trace := trace s @ [Press k] \<rparr>"
  show ?thesis
  proof (cases "is_magic_key c k")
    case True
    then show ?thesis
      using assms by (subst key_press.simps) (auto simp: Let_def steady_def mode_inv_def)
  next
    case False
    have s1: "steady c ?s1"
      using assms False by (auto simp: steady_def mode_inv_def)
    let ?s2 = "if recording_mode s then add_to_replay_buf k ?s1 else ?s1"
    have s2: "steady c ?s2" using s1 steady_add [OF s1 False assms(3)] by simp
    have "steady c (ll_modifier_press v ?s2)" "steady c (ll_key_press v ?s2)" for v
      using s2 steady_cong [of "ll_modifier_press v ?s2" ?s2 c]
            steady_cong [of "ll_key_press v ?s2" ?s2 c] by simp_all
    then show ?thesis
      using assms(2) False by (simp add: key_press_normal Let_def)
  qed
qed

lemma steady_clear_pressed: "steady c s \<Longrightarrow> steady c (clear_pressed c s)"
  by (auto simp: steady_def mode_inv_def key_clear_pressed)

lemma steady_release:
  assumes "steady c s" and "pressed (key s k)"
  shows "steady c (key_release c k s)"
proof -
  let ?s1 = "s\<lparr> key := (key s)(k := (key s k)\<lparr> pressed := False \<rparr>),
                 trace := trace s @ [Release k] \<rparr>"
  have k: "k < NKEY c" using assms by (simp add: steady_def)
  have s1: "steady c ?s1" using assms(1) by (auto simp: steady_def mode_inv_def)
  show ?thesis
  proof (cases "magic_mode s")
    case True
    let ?s2 = "?s1\<lparr> recording_mode := True, replay_buf_len := 0, magic_mode := False \<rparr>"
    have "steady c (clear_pressed c ?s2)"
      using assms(1) by (auto simp: steady_def mode_inv_def key_clear_pressed)
    then show ?thesis
      using True s1 by (simp add: key_release_magic magic_key_release_def)
  next
    case False
    have nm: "\<not> is_magic_key c k" if "recording_mode s"
      using that assms by (auto simp: steady_def)
    let ?s2 = "if recording_mode s then add_to_replay_buf k ?s1 else ?s1"
    have s2: "steady c ?s2" using s1 steady_add [OF s1 _ k] nm by simp
    have "steady c (ll_modifier_release v ?s2)" "steady c (ll_key_release v ?s2)" for v
      using s2 steady_cong [of "ll_modifier_release v ?s2" ?s2 c]
            steady_cong [of "ll_key_release v ?s2" ?s2 c] by simp_all
    then show ?thesis
      using False by (simp add: key_release_normal Let_def)
  qed
qed

lemma steady_replay_edges:
  assumes "steady c s" and "\<not> magic_mode s" and "\<not> recording_mode s"
    and "set ks \<subseteq> set (macro s)"
  shows "\<exists>s'. replay_edges n c ks s = Running s' \<and> steady c s'"
  using assms
proof (induction ks arbitrary: s)
  case Nil
  then show ?case by simp
next
  case (Cons k ks)
  have k: "\<not> is_magic_key c k" "k < NKEY c"
    using Cons.prems(1,4) by (auto simp: steady_def)
  show ?case
  proof (cases "pressed (key s k)")
    case True
    let ?s' = "key_release c k s"
    have st: "steady c ?s'" using Cons.prems(1) True by (rule steady_release)
    have fr: "\<not> magic_mode ?s'" "\<not> recording_mode ?s'" "macro ?s' = macro s"
      using release_step_normal [OF Cons.prems(2,3), of c k] by (simp_all add: macro_def)
    show ?thesis
      using Cons.IH [OF st fr(1,2)] Cons.prems(4) fr(3) True by simp
  next
    case False
    obtain s' where s': "key_press n c k s = Running s'" "\<not> magic_mode s'"
        "\<not> recording_mode s'" "replay_buf s' = replay_buf s"
        "replay_buf_len s' = replay_buf_len s"
      using press_step_normal [OF Cons.prems(2,3) k(1), of n] by blast
    have st: "steady c s'"
      using steady_press_normal [OF Cons.prems(1,2) k(2), of n] s'(1) by simp
    have m: "macro s' = macro s" using s'(4,5) by (rule macro_cong)
    show ?thesis
      using Cons.IH [OF st s'(2,3)] Cons.prems(4) m False s'(1) by simp
  qed
qed

lemma steady_replay_returns:
  assumes "steady c s" and "\<not> magic_mode s" and "\<not> recording_mode s"
  shows "\<exists>s'. replay_keypresses (Suc m) c s = Running s' \<and> steady c s'"
proof -
  let ?s0 = "clear_pressed c s"
  have st: "steady c ?s0" using assms(1) by (rule steady_clear_pressed)
  have nm: "\<forall>k\<in>set (macro ?s0). \<not> is_magic_key c k"
    using assms(1) by (simp add: steady_def)
  have "replay_keypresses (Suc m) c s = replay_edges m c (macro ?s0) ?s0"
    using replay_loop_as_edges [of ?s0 c m 0] assms(2,3) nm by simp
  then show ?thesis
    using steady_replay_edges [OF st, of "macro ?s0" m] assms(2,3) by simp
qed

lemma steady_replay:
  assumes "steady c s" and "\<not> magic_mode s" and "\<not> recording_mode s"
  shows "ends_within n (steady c) (replay_keypresses n c s)"
proof (cases n)
  case 0
  then show ?thesis by simp
next
  case (Suc m)
  then show ?thesis using steady_replay_returns [OF assms, of m] by auto
qed

lemma steady_press:
  assumes "steady c s" and "k < NKEY c"
  shows "ends_within n (steady c) (key_press n c k s)"
proof (cases "magic_mode s")
  case False
  then show ?thesis
    using steady_press_normal [OF assms(1) False assms(2), of n] by auto
next
  case True
  then have nr: "\<not> recording_mode s" using assms(1) by (simp add: steady_def mode_inv_def)
  define s0 where "s0 = s\<lparr> key := (key s)(k := (key s k)\<lparr> pressed := True \<rparr>),
                         trace := trace s @ [Press k] \<rparr>"
  define s1 where "s1 = (if is_magic_key c k then s0\<lparr> magic_mode := False \<rparr> else s0)"
  define s2 where "s2 = (if lvalue (layout c k) = KEY_X c
             then ll_key_release (KEY_X c) (ll_key_press (KEY_X c)
                    (ll_key_release (KEY_X c) (ll_key_press (KEY_X c) s1)))
             else s1)"
  define r where "r = (if lvalue (layout c k) = KEY_R c
             then replay_keypresses n c (s2\<lparr> magic_mode := False \<rparr>) else Running s2)"
  have st0: "steady c s0" "\<not> recording_mode s0"
    using assms nr by (auto simp: s0_def steady_def mode_inv_def)
  have st1: "steady c s1" "\<not> recording_mode s1"
    using st0 by (auto simp: s1_def steady_def mode_inv_def)
  have fr2: "magic_mode s2 = magic_mode s1" "recording_mode s2 = recording_mode s1"
    "macro s2 = macro s1" "\<And>j. pressed (key s2 j) = pressed (key s1 j)"
    by (simp_all add: s2_def)
  have st2: "steady c s2" "\<not> recording_mode s2"
    using st1 steady_cong [OF fr2, of c] fr2(2) by simp_all
  have st3: "steady c (s2\<lparr> magic_mode := False \<rparr>)"
    using st2 by (auto simp: steady_def mode_inv_def)
  have er: "ends_within n (steady c) r"
  proof (cases "lvalue (layout c k) = KEY_R c")
    case True
    then show ?thesis
      using steady_replay [OF st3, of n] st2(2) by (simp add: r_def)
  next
    case False
    then show ?thesis using st2(1) by (simp add: r_def)
  qed
  have eq: "key_press n c k s =
      (case r of Running s3 \<Rightarrow> if lvalue (layout c k) = KEY_B c then Bootloader s3 else Running s3
       | Bootloader s3 \<Rightarrow> Bootloader s3 | Exhausted \<Rightarrow> Exhausted)"
    unfolding key_press_magic [OF True]
    by (subst magic_key_press.simps) (simp only: Let_def s0_def s1_def s2_def r_def)
  show ?thesis
    unfolding eq using er by (cases r) simp_all
qed

lemma steady_scan_key:
  assumes "steady c s" and "k < NKEY c"
  shows "ends_within n (steady c) (scan_key n c k smp s)"
proof -
  define s1 where "s1 = s\<lparr> key := (key s)(k := (key s k)\<lparr> bounce := bounce (key s k) OR smp \<rparr>) \<rparr>"
  define r where "r = (if bounce (key s1 k) = 0x7F \<and> \<not> pressed (key s1 k)
                       then key_press n c k s1 else Running s1)"
  have bnc: "steady c (t\<lparr> key := (key t)(j := (key t j)\<lparr> bounce := b \<rparr>) \<rparr>)"
    if "steady c t" for t j b
    using that by (auto simp: steady_def mode_inv_def)
  have st1: "steady c s1" unfolding s1_def using assms(1) by (rule bnc)
  have er: "ends_within n (steady c) r"
    using st1 steady_press [OF st1 assms(2), of n] by (simp add: r_def)
  have eq: "scan_key n c k smp s =
     (case r of
        Running s2 \<Rightarrow>
          (let s3 = (if bounce (key s2 k) = 0x80 \<and> pressed (key s2 k)
                     then key_release c k s2 else s2)
           in Running (s3\<lparr> key := (key s3)
                         (k := (key s3 k)\<lparr> bounce := push_bit 1 (bounce (key s3 k)) \<rparr>) \<rparr>))
      | Bootloader s2 \<Rightarrow> Bootloader s2
      | Exhausted \<Rightarrow> Exhausted)"
    by (simp only: scan_key_def Let_def s1_def r_def)
  show ?thesis
    unfolding eq using er by (cases r) (auto simp: Let_def intro: bnc steady_release)
qed

lemma steady_scan_cols:
  assumes "steady c s" and "unat k + (unat (NCOL c) - unat col) \<le> unat (NKEY c)"
  shows "ends_within n (steady c) (snd (scan_cols n c smp r col k s)) \<and>
         (\<forall>s'. snd (scan_cols n c smp r col k s) = Running s' \<longrightarrow>
            unat (fst (scan_cols n c smp r col k s)) =
              unat k + (unat (NCOL c) - unat col))"
  using assms
proof (induction "unat (NCOL c) - unat col" arbitrary: col k s)
  case 0
  then have "\<not> col < NCOL c" by (simp add: word_less_nat_alt)
  then show ?case using 0 by (subst (1 2 3) scan_cols.simps) simp
next
  case (Suc m)
  then have lt: "col < NCOL c" by (simp add: word_less_nat_alt)
  have k: "k < NKEY c" using Suc.hyps(2) Suc.prems(2) by (simp add: word_less_nat_alt)
  have col1: "unat (col + 1) = Suc (unat col)" using lt by unat_arith
  have k1: "unat (k + 1) = Suc (unat k)" using k by unat_arith
  have e: "ends_within n (steady c) (scan_key n c k (smp r col) s)"
    using Suc.prems(1) k by (rule steady_scan_key)
  show ?case
  proof (cases "scan_key n c k (smp r col) s")
    case (Running s')
    have st: "steady c s'" using e Running by simp
    have m: "m = unat (NCOL c) - unat (col + 1)" using Suc.hyps(2) col1 by simp
    have b: "unat (k + 1) + (unat (NCOL c) - unat (col + 1)) \<le> unat (NKEY c)"
      using Suc.prems(2) Suc.hyps(2) col1 k1 by simp
    have eq: "scan_cols n c smp r col k s = scan_cols n c smp r (col + 1) (k + 1) s'"
      using lt Running by (subst scan_cols.simps) simp
    have a: "unat k + (unat (NCOL c) - unat col) =
             unat (k + 1) + (unat (NCOL c) - unat (col + 1))"
      using Suc.hyps(2) col1 k1 by arith
    show ?thesis
      unfolding eq a using Suc.hyps(1) [OF m st b] by simp
  next
    case (Bootloader s')
    then show ?thesis using e lt by (subst (1 2 3) scan_cols.simps) simp
  next
    case Exhausted
    then show ?thesis using e lt by (subst (1 2 3) scan_cols.simps) simp
  qed
qed

lemma steady_scan_rows:
  assumes "steady c s" and "unat k + (unat (NROW c) - unat r) * unat (NCOL c) \<le> unat (NKEY c)"
  shows "ends_within n (steady c) (scan_rows n c smp r k s)"
  using assms
proof (induction "unat (NROW c) - unat r" arbitrary: r k s)
  case 0
  then have "\<not> r < NROW c" by (simp add: word_less_nat_alt)
  then show ?case using 0 by (subst scan_rows.simps) simp
next
  case (Suc m)
  then have lt: "r < NROW c" by (simp add: word_less_nat_alt)
  have r1: "unat (r + 1) = Suc (unat r)" using lt by unat_arith
  have rows: "(unat (NROW c) - unat r) * unat (NCOL c) = unat (NCOL c) + m * unat (NCOL c)"
    by (simp add: Suc.hyps(2) [symmetric])
  have b0: "unat k + (unat (NCOL c) - unat (0::u8)) \<le> unat (NKEY c)"
    using Suc.prems(2) rows by simp
  note cols = steady_scan_cols [OF Suc.prems(1) b0, of n smp r]
  obtain k' res where sc: "scan_cols n c smp r 0 k s = (k', res)"
    by (cases "scan_cols n c smp r 0 k s")
  have e: "ends_within n (steady c) res" using cols sc by simp
  show ?case
  proof (cases res)
    case (Running s')
    have st: "steady c s'" using e Running by simp
    have k': "unat k' = unat k + unat (NCOL c)" using cols sc Running by simp
    have m: "m = unat (NROW c) - unat (r + 1)" using Suc.hyps(2) r1 by simp
    have b: "unat k' + (unat (NROW c) - unat (r + 1)) * unat (NCOL c) \<le> unat (NKEY c)"
      using Suc.prems(2) k' rows m [symmetric] by simp
    show ?thesis
      using lt sc Running Suc.hyps(1) [OF m st b] by (subst scan_rows.simps) simp
  next
    case (Bootloader s')
    then show ?thesis using lt sc e by (subst scan_rows.simps) simp
  next
    case Exhausted
    then show ?thesis using lt sc e by (subst scan_rows.simps) simp
  qed
qed

lemma steady_isr:
  assumes "config_ok c" and "steady c s"
  shows "ends_within n (steady c) (isr n c smp host_leds s)"
proof -
  have "unat (0::u8) + (unat (NROW c) - unat (0::u8)) * unat (NCOL c) \<le> unat (NKEY c)"
    using assms(1) by (simp add: config_ok_def)
  then have e: "ends_within n (steady c) (scan_rows n c smp 0 0 s)"
    using assms(2) by (rule steady_scan_rows [rotated])
  have led: "steady c (t\<lparr> leds := l \<rparr>)" if "steady c t" for t l
    using that by (simp add: steady_def mode_inv_def)
  show ?thesis
    using e led by (cases "scan_rows n c smp 0 0 s") (simp_all add: isr_def)
qed

lemma reachable_steady:
  assumes "config_ok c" and "reachable c s"
  shows "steady c s"
  using assms(2)
proof (induction rule: reachable.induct)
  case reachable_init
  then show ?case by (simp add: steady_def mode_inv_def init_def macro_def)
next
  case (reachable_isr s n smp host_leds s')
  then show ?case using steady_isr [OF assms(1), of s n smp host_leds] by simp
qed

text \<open>
  On a keyboard whose matrix fits the key table, every interrupt started in a reachable
  state ends, with a bound of one nested replay, by returning or in the bootloader.
\<close>

theorem scan_returns:
  assumes "config_ok c" and "reachable c s"
  shows "\<exists>s'. (isr (Suc n) c smp host_leds s = Running s' \<or>
               isr (Suc n) c smp host_leds s = Bootloader s') \<and> steady c s'"
  using steady_isr [OF assms(1) reachable_steady [OF assms], of "Suc n" smp host_leds]
  by (cases "isr (Suc n) c smp host_leds s") simp_all

text \<open>
  The press of the replay key in magic mode, in a state as the scan leaves it: the replay
  is started outside magic and recording mode on a macro without magic keys, and it
  returns.
\<close>

lemma replay_key_in_magic_mode:
  assumes "steady c t" and "magic_mode t" and "k < NKEY c"
    and "lvalue (layout c k) = KEY_R c" and "KEY_R c \<noteq> KEY_X c"
  shows "\<exists>t0 s'. t0 = t\<lparr> key := (key t)(k := (key t k)\<lparr> pressed := True \<rparr>),
                          trace := trace t @ [Press k], magic_mode := False \<rparr> \<and>
                 \<not> magic_mode t0 \<and> \<not> recording_mode t0 \<and>
                 (\<forall>j\<in>set (macro t0). \<not> is_magic_key c j) \<and>
                 replay_keypresses (Suc n) c t0 = Running s' \<and>
                 key_press (Suc n) c k t =
                   (if KEY_R c = KEY_B c then Bootloader s' else Running s')"
proof -
  define t0 where "t0 = t\<lparr> key := (key t)(k := (key t k)\<lparr> pressed := True \<rparr>),
                          trace := trace t @ [Press k], magic_mode := False \<rparr>"
  have nr: "\<not> recording_mode t" using assms(1,2) by (simp add: steady_def mode_inv_def)
  have st: "steady c t0"
    using assms(1,3) nr by (auto simp: t0_def steady_def mode_inv_def)
  have m: "\<not> magic_mode t0" "\<not> recording_mode t0" using nr by (simp_all add: t0_def)
  have nm: "\<forall>j\<in>set (macro t0). \<not> is_magic_key c j" using st by (simp add: steady_def)
  obtain s' where s': "replay_keypresses (Suc n) c t0 = Running s'"
    using steady_replay_returns [OF st m, of n] by blast
  have "key_press (Suc n) c k t = (if KEY_R c = KEY_B c then Bootloader s' else Running s')"
    unfolding key_press_magic [OF assms(2)]
    using assms(4,5) s'
    by (subst magic_key_press.simps) (auto simp: Let_def t0_def)
  then show ?thesis using m nm s' t0_def by blast
qed

section \<open>Bounds that hold in every reachable state\<close>

text \<open>
  Claim C10. \<open>queue[6]\<close> is zero initially and stays zero under \<open>ll_key_press\<close>,
  \<open>ll_key_release\<close> and \<open>clear_pressed\<close>, hence in every reachable state; a release that
  finds its code copies this zero into slot 5.
\<close>

theorem seventh_slot_stays_zero:
  assumes "wf_arrays s" and "queue s ! 6 = 0"
  shows "queue init ! 6 = 0 \<and>
         (reachable c r \<longrightarrow> queue r ! 6 = 0) \<and>
         queue (ll_key_press k s) ! 6 = 0 \<and>
         queue (ll_key_release k s) ! 6 = 0 \<and>
         queue (clear_pressed c s) ! 6 = 0 \<and>
         (k \<in> set (take 6 (queue s)) \<longrightarrow> queue (ll_key_release k s) ! 5 = 0)"
proof -
  obtain q0 q1 q2 q3 q4 q5 q6 where q: "queue s = [q0, q1, q2, q3, q4, q5, q6]"
    using assms(1) length_7_cases unfolding wf_arrays_def by blast
  have g: "q6 = 0" using assms(2) q by simp
  have "queue (clear_pressed c s) ! 6 = 0"
    by (simp add: clear_pressed_def send_def Let_def q upt_7)
  moreover have "queue (ll_key_press k s) ! 6 = 0"
    using assms by (simp add: queue_ll_key_press) (simp add: q g)
  moreover have "queue (ll_key_release k s) ! 6 = 0"
    using assms by (simp add: ll_key_release_closed) (auto simp: q g remove_slot_7)
  moreover have "k \<in> set (take 6 (queue s)) \<longrightarrow> queue (ll_key_release k s) ! 5 = 0"
    using assms by (simp add: ll_key_release_closed) (auto simp: q g remove_slot_7)
  moreover have "queue r ! 6 = 0" if "reachable c r"
    using reachable_sane [OF that] by (simp add: sane_def)
  ultimately show ?thesis by (simp add: init_def)
qed

theorem seventh_slot_stays_zero_witness:
  "wf_arrays two_held \<and> queue two_held ! 6 = 0 \<and>
   reachable demo_cfg init \<and> queue init ! 6 = 0 \<and>
   queue (ll_key_press 7 two_held) ! 6 = 0 \<and>
   queue (ll_key_release 4 two_held) ! 6 = 0 \<and>
   queue (ll_key_release 4 two_held) ! 5 = 0"
proof -
  have h: "wf_arrays two_held" "queue two_held ! 6 = 0"
    by (simp_all add: two_held_eq wf_arrays_def init_def)
  show ?thesis
    using seventh_slot_stays_zero [OF h, of demo_cfg init 4]
          seventh_slot_stays_zero [OF h, of demo_cfg init 7] h reachable_init [of demo_cfg]
    by (simp add: two_held_eq)
qed

text \<open>
  Claim C3, amended. \<open>add_to_replay_buf\<close> appends the key index when the buffer holds
  fewer than 254 entries and leaves the recording flag as it is; when the buffer holds 254
  entries or more it only clears the recording flag. So the length never exceeds 254, in
  particular in no reachable state, and
  the 255th key of a session is the one that ends the recording. The claim as stated, with
  255 and 256, fails: with 254 entries the buffer has fewer than 255, and the next key is
  not appended.
\<close>

theorem record_appends_below_254:
  "(unat (replay_buf_len s) < 254 \<longrightarrow>
      macro (add_to_replay_buf k s) = macro s @ [k] \<and>
      recording_mode (add_to_replay_buf k s) = recording_mode s) \<and>
   (254 \<le> unat (replay_buf_len s) \<longrightarrow>
      add_to_replay_buf k s = s\<lparr> recording_mode := False \<rparr>) \<and>
   (unat (replay_buf_len s) \<le> 254 \<longrightarrow>
      unat (replay_buf_len (add_to_replay_buf k s)) \<le> 254) \<and>
   (reachable c r \<longrightarrow> unat (replay_buf_len r) \<le> 254)"
proof -
  have "unat (replay_buf_len (add_to_replay_buf k s)) \<le> 254"
    if "unat (replay_buf_len s) \<le> 254"
    using that by (auto simp: add_to_replay_buf_def u8_succ)
  moreover have "recording_mode (add_to_replay_buf k s) = recording_mode s"
    if "unat (replay_buf_len s) < 254"
    using that by (simp add: add_to_replay_buf_def)
  moreover have "add_to_replay_buf k s = s\<lparr> recording_mode := False \<rparr>"
    if "254 \<le> unat (replay_buf_len s)"
    using that by (simp add: add_to_replay_buf_def)
  moreover have "unat (replay_buf_len r) \<le> 254" if "reachable c r"
    using reachable_sane [OF that] by (simp add: sane_def)
  ultimately show ?thesis
    using macro_add_to_replay_buf by blast
qed

text \<open>
  Claim C3 as stated fails: after 254 recorded keys the buffer holds fewer than 255
  entries, and the next key is not appended but ends the recording.
\<close>

theorem record_full_at_254_counterexample:
  "unat (replay_buf_len nearly_full) < 255 \<and>
   recording_mode nearly_full \<and>
   replay_buf_len (add_to_replay_buf 9 nearly_full) = replay_buf_len nearly_full \<and>
   \<not> recording_mode (add_to_replay_buf 9 nearly_full)"
  by (simp add: nearly_full_facts add_to_replay_buf_def)

theorem record_appends_below_254_witness:
  "unat (replay_buf_len init) < 254 \<and> reachable demo_cfg init \<and>
   macro (add_to_replay_buf 9 init) = [9] \<and>
   254 \<le> unat (replay_buf_len nearly_full) \<and>
   add_to_replay_buf 9 nearly_full = nearly_full\<lparr> recording_mode := False \<rparr> \<and>
   unat (replay_buf_len (add_to_replay_buf 9 nearly_full)) \<le> 254"
  using record_appends_below_254 [of init 9 demo_cfg init]
        record_appends_below_254 [of nearly_full 9 demo_cfg init] reachable_init [of demo_cfg]
  by (simp add: nearly_full_facts) (simp add: init_def macro_def)

end
